theory Spec2Isabelle
  imports Complex_Main
begin

section \<open>Data model\<close>

text \<open>
  The simulator of \<^verbatim>\<open>main.py\<close> keeps \<^verbatim>\<open>NetworkNode\<close> objects, compared by identity, and
  \<^verbatim>\<open>Packet\<close> objects that the congestion-control handlers mutate in place. A node is
  modelled by its identity (a natural number); the node attributes the core reads
  (\<^verbatim>\<open>name\<close>, \<^verbatim>\<open>latency\<close>, \<^verbatim>\<open>connections\<close>, \<^verbatim>\<open>congestion\<close>) are fields of the simulator
  record indexed by that identity. A packet is a record that each handler takes and
  returns updated. Phases, algorithm names and event kinds are the strings of the source.
  Numbers that the source divides (\<^verbatim>\<open>cwnd\<close>, \<^verbatim>\<open>ssthresh\<close>, \<^verbatim>\<open>rtt\<close>, \<^verbatim>\<open>congestion\<close>) are
  exact reals here; rounding of Python floats is not modelled. Wall-clock readings
  (\<^verbatim>\<open>time.time()\<close>), Tk widgets and colours are left out of the state.
\<close>

text \<open>
  A distance of the path finder: an integer, or Python's \<^verbatim>\<open>float('infinity')\<close>.
\<close>

datatype distance = Finite int | Infinity

record packet =
  source :: nat
  destination :: nat
  path :: "nat list"
  current_index :: nat
  progress :: real
  hop_count :: int
  total_latency :: distance
  completed :: bool
  packet_id :: nat
  cwnd :: real
  ssthresh :: real
  phase :: string
  dup_ack_count :: nat
  rtt :: real
  lost :: bool
  retransmitted :: bool

record event =
  ev_packet_id :: nat
  ev_cwnd :: real
  ev_phase :: string
  ev_rtt :: real
  ev_event_type :: string
  ev_throughput :: real
  ev_node_congestion :: real

text \<open>
  \<^verbatim>\<open>random.random()\<close> is modelled by a fixed sequence of draws \<open>random_source\<close> and the
  position \<open>random_pos\<close> of the next draw.
\<close>

record simulator =
  nodes :: "nat list"
  node_name :: "nat \<Rightarrow> string"
  latency :: "nat \<Rightarrow> int"
  connections :: "nat \<Rightarrow> nat list"
  congestion :: "nat \<Rightarrow> real"
  packets :: "packet list"
  simulation_running :: bool
  manual_packet_mode :: bool
  active_manual_packet_ids :: "nat set"
  traffic_load :: string
  congestion_algorithm :: string
  packet_loss_rate :: real
  packet_counter :: nat
  packet_events :: "event list"
  random_source :: "nat \<Rightarrow> real"
  random_pos :: nat

section \<open>Packet: constructor and window update\<close>

text \<open>
  \<^verbatim>\<open>Packet.__init__\<close>: \<open>rand_id\<close> stands for \<^verbatim>\<open>random.randint(1000, 9999)\<close>, used when the
  caller passes no (or a zero) packet id.
\<close>

definition Packet :: "nat \<Rightarrow> nat \<Rightarrow> nat list \<Rightarrow> nat \<Rightarrow> nat \<Rightarrow> packet" where
  "Packet src dst pth pid rand_id =
     \<lparr> source = src, destination = dst, path = pth, current_index = 0, progress = 0,
       hop_count = int (length pth) - 1, total_latency = Finite 0, completed = False,
       packet_id = (if pid \<noteq> 0 then pid else rand_id),
       cwnd = 1, ssthresh = 64, phase = ''slow_start'', dup_ack_count = 0, rtt = 0,
       lost = False, retransmitted = False \<rparr>"

definition set_phase :: "packet \<Rightarrow> string \<Rightarrow> packet" where
  "set_phase p phase_name = p\<lparr>phase := phase_name\<rparr>"

definition update_cwnd :: "packet \<Rightarrow> string \<Rightarrow> packet" where
  "update_cwnd p algorithm =
     (if phase p = ''slow_start'' then
        (let p1 = p\<lparr>cwnd := min (cwnd p * 2) (ssthresh p)\<rparr>
         in if cwnd p1 \<ge> ssthresh p1 then set_phase p1 ''congestion_avoidance'' else p1)
      else if phase p = ''congestion_avoidance'' then
        p\<lparr>cwnd := cwnd p + 1 / max (cwnd p) 1\<rparr>
      else if phase p = ''fast_recovery'' then
        (if algorithm = ''reno'' then p\<lparr>cwnd := cwnd p + 1\<rparr> else p)
      else p)"

section \<open>Event recorder\<close>

definition important_events :: "string list" where
  "important_events = [''created'', ''delivered'', ''dropped'', ''timeout'',
     ''fast_retransmit'', ''exit_fast_recovery'', ''manual_created'']"

text \<open>The body of \<^verbatim>\<open>record_packet_event\<close> after the sampling test.\<close>

definition append_event :: "simulator \<Rightarrow> packet \<Rightarrow> string \<Rightarrow> simulator" where
  "append_event s p event_type =
     (let throughput = (if rtt p > 0 then (cwnd p * 1500 * 8) / (rtt p / 1000) / 1000000 else 0);
          ev = \<lparr> ev_packet_id = packet_id p, ev_cwnd = cwnd p, ev_phase = phase p,
                 ev_rtt = rtt p, ev_event_type = event_type, ev_throughput = throughput,
                 ev_node_congestion =
                   (if current_index p < length (path p)
                    then congestion s (path p ! current_index p) else 0) \<rparr>;
          evs = packet_events s @ [ev]
      in s\<lparr>packet_events := (if length evs > 500 then drop (length evs - 500) evs else evs)\<rparr>)"

definition record_packet_event :: "simulator \<Rightarrow> packet \<Rightarrow> string \<Rightarrow> simulator" where
  "record_packet_event s p event_type =
     (if event_type \<notin> set important_events then
        (let r = random_source s (random_pos s);
             s1 = s\<lparr>random_pos := random_pos s + 1\<rparr>
         in if r > 1 / 10 then s1 else append_event s1 p event_type)
      else append_event s p event_type)"

definition record_packet_event_dropped :: "simulator \<Rightarrow> nat \<Rightarrow> simulator" where
  "record_packet_event_dropped s pid =
     s\<lparr>packet_events := packet_events s @
        [\<lparr> ev_packet_id = pid, ev_cwnd = 0, ev_phase = ''dropped'', ev_rtt = 0,
           ev_event_type = ''dropped'', ev_throughput = 0, ev_node_congestion = 0 \<rparr>]\<rparr>"

section \<open>Congestion control at a hop entry\<close>

definition handle_fast_retransmit_reno :: "packet \<Rightarrow> packet" where
  "handle_fast_retransmit_reno p =
     (let p1 = set_phase p ''fast_retransmit'';
          p2 = p1\<lparr>ssthresh := max (cwnd p1 / 2) 2\<rparr>;
          p3 = p2\<lparr>cwnd := ssthresh p2 + 3\<rparr>;
          p4 = set_phase p3 ''fast_recovery''
      in p4\<lparr>retransmitted := True, dup_ack_count := 0\<rparr>)"

definition handle_fast_retransmit_tahoe :: "packet \<Rightarrow> packet" where
  "handle_fast_retransmit_tahoe p =
     (let p1 = set_phase p ''fast_retransmit'';
          p2 = p1\<lparr>ssthresh := max (cwnd p1 / 2) 2\<rparr>;
          p3 = p2\<lparr>cwnd := 1\<rparr>;
          p4 = set_phase p3 ''slow_start''
      in p4\<lparr>retransmitted := True, dup_ack_count := 0\<rparr>)"

definition handle_timeout_reno :: "packet \<Rightarrow> packet" where
  "handle_timeout_reno p =
     (let p1 = p\<lparr>ssthresh := max (cwnd p / 2) 2\<rparr>;
          p2 = p1\<lparr>cwnd := 1\<rparr>;
          p3 = set_phase p2 ''slow_start''
      in p3\<lparr>lost := True, dup_ack_count := 0\<rparr>)"

definition handle_timeout_tahoe :: "packet \<Rightarrow> packet" where
  "handle_timeout_tahoe p =
     (let p1 = p\<lparr>ssthresh := max (cwnd p / 2) 2\<rparr>;
          p2 = p1\<lparr>cwnd := 1\<rparr>;
          p3 = set_phase p2 ''slow_start''
      in p3\<lparr>lost := True, dup_ack_count := 0\<rparr>)"

text \<open>
  \<^verbatim>\<open>handle_congestion_control(packet, current_node)\<close>. The packet is mutated in place in
  the source; here the updated packet is returned beside the updated simulator (whose
  event log and random position the recorder may change).
\<close>

definition handle_congestion_control :: "simulator \<Rightarrow> packet \<Rightarrow> nat \<Rightarrow> simulator \<times> packet" where
  "handle_congestion_control s p current_node =
     (let base_rtt = real_of_int (latency s current_node);
          congestion_delay = congestion s current_node * 5;
          p0 = p\<lparr>rtt := base_rtt + congestion_delay\<rparr>
      in if congestion s current_node > 9 then
           (let p1 = (if congestion_algorithm s = ''reno'' then handle_timeout_reno p0
                      else handle_timeout_tahoe p0);
                p2 = p1\<lparr>dup_ack_count := 0\<rparr>
            in (record_packet_event s p2 ''timeout'', p2))
         else if congestion s current_node > 7 then
           (let p1 = p0\<lparr>dup_ack_count := dup_ack_count p0 + 1\<rparr>
            in if dup_ack_count p1 \<ge> 3 then
                 (let p2 = (if congestion_algorithm s = ''reno'' then handle_fast_retransmit_reno p1
                            else handle_fast_retransmit_tahoe p1)
                  in (record_packet_event s p2 ''fast_retransmit'', p2))
               else (s, p1))
         else if congestion s current_node > 5 \<and> phase p0 = ''fast_recovery''
                 \<and> congestion_algorithm s = ''reno'' then
           (let p1 = p0\<lparr>cwnd := cwnd p0 + 1\<rparr>
            in (record_packet_event s p1 ''cwnd_inflation'', p1))
         else
           (let p1 = p0\<lparr>dup_ack_count := 0\<rparr>;
                (s2, p2) =
                  (if phase p1 = ''fast_recovery'' \<and> congestion_algorithm s = ''reno'' then
                     (let q1 = p1\<lparr>cwnd := ssthresh p1\<rparr>;
                          q2 = set_phase q1 ''congestion_avoidance''
                      in (record_packet_event s q2 ''exit_fast_recovery'', q2))
                   else
                     (let previous_cwnd = cwnd p1;
                          q1 = update_cwnd p1 (congestion_algorithm s)
                      in if previous_cwnd < ssthresh q1 \<and> ssthresh q1 \<le> cwnd q1 then
                           (let q2 = set_phase q1 ''congestion_avoidance''
                            in (record_packet_event s q2 ''phase_transition_CA'', q2))
                         else (s, q1)))
            in (record_packet_event s2 p2 ''ack_received'', p2)))"

text \<open>
  A flow meets a sequence of hop entries. Between two of them the rest of the simulator
  moves on (other flows load the nodes, the decay tick runs, the user may switch the
  algorithm), so each hop entry comes with the simulator state it sees and the node
  entered.
\<close>

fun hop_entries :: "packet \<Rightarrow> (simulator \<times> nat) list \<Rightarrow> packet" where
  "hop_entries p [] = p"
| "hop_entries p ((s, n) # hs) = hop_entries (snd (handle_congestion_control s p n)) hs"

section \<open>Path finder\<close>

text \<open>
  \<^verbatim>\<open>dijkstra_shortest_path\<close>. The dictionaries \<^verbatim>\<open>distances\<close> and \<^verbatim>\<open>previous\<close> are total
  functions here: the source reads them only at members of \<^verbatim>\<open>unvisited\<close> (a subset of
  \<^verbatim>\<open>self.nodes\<close>, the keys) and at nodes that were \<^verbatim>\<open>current\<close> before, so no lookup can
  miss. \<^verbatim>\<open>unvisited\<close> is a Python set; a list stands for it, in the order in which the
  set is iterated (an order the runtime fixes, so it is an argument \<open>ord\<close> of the model and
  the theorems hold for every order). \<^verbatim>\<open>min(unvisited, key=...)\<close> returns the first
  element, in that order, whose key is least.
\<close>

fun dist_less :: "distance \<Rightarrow> distance \<Rightarrow> bool" where
  "dist_less (Finite a) (Finite b) = (a < b)"
| "dist_less (Finite a) Infinity = True"
| "dist_less Infinity d = False"

fun dist_add :: "distance \<Rightarrow> int \<Rightarrow> distance" where
  "dist_add (Finite a) b = Finite (a + b)"
| "dist_add Infinity b = Infinity"

fun min_from :: "(nat \<Rightarrow> distance) \<Rightarrow> nat \<Rightarrow> nat list \<Rightarrow> nat" where
  "min_from d best [] = best"
| "min_from d best (x # xs) = min_from d (if dist_less (d x) (d best) then x else best) xs"

record dijkstra_state =
  distances :: "nat \<Rightarrow> distance"
  previous :: "nat \<Rightarrow> nat option"
  unvisited :: "nat list"

text \<open>The body of the loop over \<^verbatim>\<open>current.connections\<close>, for one neighbour.\<close>

definition relax :: "simulator \<Rightarrow> nat \<Rightarrow> dijkstra_state \<Rightarrow> nat \<Rightarrow> dijkstra_state" where
  "relax s current st neighbor =
     (if neighbor \<in> set (unvisited st) then
        (let alt_distance = dist_add (distances st current) (latency s current)
         in if dist_less alt_distance (distances st neighbor)
            then st\<lparr>distances := (distances st)(neighbor := alt_distance),
                    previous := (previous st)(neighbor := Some current)\<rparr>
            else st)
      else st)"

text \<open>
  The path reconstruction \<^verbatim>\<open>while current: path.append(current); current = previous[current]\<close>.
  A node object is always true in Python, so the loop ends exactly when \<^verbatim>\<open>current\<close> is
  \<^verbatim>\<open>None\<close>. Nothing in the loop itself bounds it, so it is a partial function: \<open>None\<close> is a
  loop that does not return (\<open>tree_path_reconstruct\<close> shows that it does return on the
  predecessor maps the main loop builds).
\<close>

partial_function (option) reconstruct ::
  "(nat \<Rightarrow> nat option) \<Rightarrow> nat option \<Rightarrow> nat list \<Rightarrow> nat list option" where
  "reconstruct prev current pth =
     (case current of None \<Rightarrow> Some pth
      | Some c \<Rightarrow> reconstruct prev (prev c) (pth @ [c]))"

text \<open>
  The \<^verbatim>\<open>while unvisited\<close> loop. The result is the pair the source returns: the path (or
  \<^verbatim>\<open>None\<close>) and the distance (or infinity).
\<close>

function dijkstra_loop ::
  "simulator \<Rightarrow> nat \<Rightarrow> dijkstra_state \<Rightarrow> (nat list option \<times> distance) option" where
  "dijkstra_loop s dest st =
     (case unvisited st of
        [] \<Rightarrow> Some (None, Infinity)
      | x # xs \<Rightarrow>
          (let current = min_from (distances st) x xs
           in if distances st current = Infinity then Some (None, Infinity)
              else if current = dest then
                map_option (\<lambda>pth. (Some (rev pth), distances st dest))
                  (reconstruct (previous st) (Some current) [])
              else dijkstra_loop s dest
                     (foldl (relax s current)
                        (st\<lparr>unvisited := remove1 current (unvisited st)\<rparr>)
                        (connections s current))))"
  by pat_completeness auto
termination
proof (relation "measure (\<lambda>(s, dest, st). length (unvisited st))")
  show "wf (measure (\<lambda>(s, dest, st). length (unvisited st)))" by simp
next
  fix s :: simulator and dest :: nat and st :: dijkstra_state
    and x :: nat and xs :: "nat list" and current :: nat
  assume u: "unvisited st = x # xs" and c: "current = min_from (distances st) x xs"
  have mem: "min_from d b ys \<in> set (b # ys)" for d b ys
    by (induction ys arbitrary: b) auto
  have keep: "unvisited (foldl (relax s current) st0 ns) = unvisited st0" for st0 ns
    by (induction ns arbitrary: st0) (simp_all add: relax_def Let_def)
  have "current \<in> set (unvisited st)" using mem[of "distances st" x xs] u c by simp
  then have "length (remove1 current (unvisited st)) < length (unvisited st)"
    by (simp add: length_remove1) (cases "unvisited st"; simp)
  then show "((s, dest,
               foldl (relax s current) (st\<lparr>unvisited := remove1 current (unvisited st)\<rparr>)
                 (connections s current)),
              (s, dest, st))
             \<in> measure (\<lambda>(s, dest, st). length (unvisited st))"
    by (simp add: keep)
qed

declare dijkstra_loop.simps [simp del]

definition dijkstra_shortest_path ::
  "simulator \<Rightarrow> nat list \<Rightarrow> nat \<Rightarrow> nat \<Rightarrow> (nat list option \<times> distance) option" where
  "dijkstra_shortest_path s ord src dest =
     dijkstra_loop s dest
       \<lparr> distances = (\<lambda>node. Infinity)(src := Finite 0),
         previous = (\<lambda>node. None),
         unvisited = ord \<rparr>"

section \<open>Traffic generator\<close>

text \<open>
  \<^verbatim>\<open>spawn_packet\<close>, with the part after the loss test as \<open>admit_packet\<close>. The result is the
  new simulator, the boolean the source returns, and the titles of the message boxes it
  shows. The performance histories of \<^verbatim>\<open>track_performance\<close> (built from wall-clock
  differences) and the refresh of the statistics panel are not part of the state here.
\<close>

definition admit_packet ::
  "simulator \<Rightarrow> nat \<Rightarrow> nat \<Rightarrow> nat list \<Rightarrow> distance \<Rightarrow> nat \<Rightarrow> bool \<Rightarrow> simulator" where
  "admit_packet s src dst pth total_lat next_packet_id manual =
     (let s1 = s\<lparr>packet_counter := next_packet_id\<rparr>;
          pkt = (Packet src dst pth (packet_counter s1) 0)\<lparr>total_latency := total_lat\<rparr>;
          s2 = s1\<lparr>packets := packets s1 @ [pkt]\<rparr>;
          event_type = (if manual then ''manual_created'' else ''created'');
          s3 = record_packet_event s2 pkt event_type;
          congestion_factor = (if traffic_load s3 = ''light'' then 1 / 2
                               else if traffic_load s3 = ''heavy'' then 2 else 1)
      in foldl (\<lambda>t node. t\<lparr>congestion :=
                   (congestion t)(node := min 10 (congestion t node + congestion_factor))\<rparr>)
           s3 pth)"

definition spawn_packet ::
  "simulator \<Rightarrow> nat list \<Rightarrow> nat \<Rightarrow> nat \<Rightarrow> bool \<Rightarrow> (simulator \<times> bool \<times> string list) option" where
  "spawn_packet s ord src dst manual =
     (case dijkstra_shortest_path s ord src dst of
        None \<Rightarrow> None
      | Some (found, total_lat) \<Rightarrow>
          (case found of
             None \<Rightarrow> Some (s, False, if manual then [''No Path''] else [])
           | Some pth \<Rightarrow>
               if pth = [] then Some (s, False, if manual then [''No Path''] else [])
               else
                 (let next_packet_id = packet_counter s + 1
                  in if \<not> manual then
                       (let r = random_source s (random_pos s);
                            s1 = s\<lparr>random_pos := random_pos s + 1\<rparr>
                        in if r < packet_loss_rate s1 / 100 then
                             Some ((record_packet_event_dropped s1 next_packet_id)
                                     \<lparr>packet_counter := next_packet_id\<rparr>, False, [])
                           else Some (admit_packet s1 src dst pth total_lat next_packet_id manual,
                                      True, []))
                     else Some (admit_packet s src dst pth total_lat next_packet_id manual,
                                True, []))))"

text \<open>
  \<^verbatim>\<open>send_manual_packet\<close>; the two Tk variables it reads are the arguments
  \<open>source_name\<close> and \<open>dest_name\<close>. The result is the new simulator and the titles of the
  message boxes shown.
\<close>

definition send_manual_packet ::
  "simulator \<Rightarrow> nat list \<Rightarrow> string \<Rightarrow> string \<Rightarrow> (simulator \<times> string list) option" where
  "send_manual_packet s ord source_name dest_name =
     (if length (nodes s) < 2 then Some (s, [''No Nodes''])
      else if source_name = [] \<or> dest_name = [] \<or> source_name = dest_name
        then Some (s, [''Invalid''])
      else
        (case (find (\<lambda>n. node_name s n = source_name) (nodes s),
               find (\<lambda>n. node_name s n = dest_name) (nodes s)) of
           (Some source_node, Some dest_node) \<Rightarrow>
             (let s1 = (if simulation_running s then s\<lparr>simulation_running := False\<rparr> else s);
                  s2 = s1\<lparr>manual_packet_mode := True\<rparr>
              in case spawn_packet s2 ord source_node dest_node True of
                   None \<Rightarrow> None
                 | Some (s3, ok, dialogs) \<Rightarrow>
                     if ok then
                       (if packets s3 \<noteq> [] then
                          Some (s3\<lparr>active_manual_packet_ids :=
                                    insert (packet_id (last (packets s3)))
                                      (active_manual_packet_ids s3)\<rparr>, dialogs)
                        else Some (s3, dialogs))
                     else Some (s3\<lparr>manual_packet_mode := False\<rparr>, dialogs))
         | _ \<Rightarrow> Some (s, [''Error''])))"

text \<open>
  The lookups of \<^verbatim>\<open>send_manual_packet\<close> (first node with the selected name) find the
  nodes \<open>a\<close> and \<open>b\<close>.
\<close>

definition endpoints_found :: "simulator \<Rightarrow> string \<Rightarrow> string \<Rightarrow> nat \<Rightarrow> nat \<Rightarrow> bool" where
  "endpoints_found s source_name dest_name a b \<longleftrightarrow>
     find (\<lambda>n. node_name s n = source_name) (nodes s) = Some a \<and>
     find (\<lambda>n. node_name s n = dest_name) (nodes s) = Some b"

section \<open>Paths and reachability in the topology\<close>

fun is_path :: "simulator \<Rightarrow> nat list \<Rightarrow> bool" where
  "is_path s [] = False"
| "is_path s [u] = (u \<in> set (nodes s))"
| "is_path s (u # v # rest) =
     (u \<in> set (nodes s) \<and> v \<in> set (connections s u) \<and> is_path s (v # rest))"

definition path_cost :: "simulator \<Rightarrow> nat list \<Rightarrow> int" where
  "path_cost s pth = sum_list (map (latency s) (butlast pth))"

inductive reachable :: "simulator \<Rightarrow> nat \<Rightarrow> nat \<Rightarrow> bool" for s :: simulator and src :: nat where
  reach_refl: "src \<in> set (nodes s) \<Longrightarrow> reachable s src src"
| reach_step: "reachable s src u \<Longrightarrow> v \<in> set (connections s u) \<Longrightarrow> v \<in> set (nodes s)
               \<Longrightarrow> reachable s src v"

section \<open>Invariants of the path finder\<close>

text \<open>
  \<open>tree_path s Vis prev src v p\<close>: \<open>p\<close> is the path from \<open>src\<close> to \<open>v\<close> that the
  predecessor map \<open>prev\<close> encodes, every node of it but the last is in \<open>Vis\<close>, and every
  step of it is a connection of the topology. \<open>dinv\<close> is the invariant of the main loop,
  \<open>tree_ok\<close> the part of it that also holds while the neighbours are relaxed, and
  \<open>good_result\<close> what the path finder owes its caller: a path from \<open>src\<close> to \<open>dst\<close> with
  its cost when \<open>dst\<close> can be reached, and \<^verbatim>\<open>(None, infinity)\<close> when it cannot.
\<close>

inductive tree_path ::
  "simulator \<Rightarrow> nat set \<Rightarrow> (nat \<Rightarrow> nat option) \<Rightarrow> nat \<Rightarrow> nat \<Rightarrow> nat list \<Rightarrow> bool"
  for s :: simulator and Vis :: "nat set" and prev :: "nat \<Rightarrow> nat option" and src :: nat where
  tp_root: "prev src = None \<Longrightarrow> src \<in> set (nodes s) \<Longrightarrow> tree_path s Vis prev src src [src]"
| tp_step: "tree_path s Vis prev src u p \<Longrightarrow> u \<in> Vis \<Longrightarrow> prev v = Some u \<Longrightarrow>
            v \<in> set (connections s u) \<Longrightarrow> v \<in> set (nodes s) \<Longrightarrow>
            tree_path s Vis prev src v (p @ [v])"

definition visited :: "simulator \<Rightarrow> dijkstra_state \<Rightarrow> nat set" where
  "visited s st = set (nodes s) - set (unvisited st)"

definition tree_ok :: "simulator \<Rightarrow> nat \<Rightarrow> dijkstra_state \<Rightarrow> bool" where
  "tree_ok s src st \<longleftrightarrow>
     src \<in> set (nodes s) \<and> previous st src = None \<and> distances st src = Finite 0 \<and>
     set (unvisited st) \<subseteq> set (nodes s) \<and>
     (\<forall>v c. distances st v = Finite c \<longrightarrow>
        (\<exists>p. tree_path s (visited s st) (previous st) src v p \<and> c = path_cost s p)) \<and>
     (\<forall>u \<in> visited s st. distances st u \<noteq> Infinity)"

definition dinv :: "simulator \<Rightarrow> nat \<Rightarrow> nat \<Rightarrow> dijkstra_state \<Rightarrow> bool" where
  "dinv s src dst st \<longleftrightarrow>
     tree_ok s src st \<and> distinct (unvisited st) \<and>
     (dst \<in> set (nodes s) \<longrightarrow> dst \<in> set (unvisited st)) \<and>
     (src \<in> set (unvisited st) \<longrightarrow> (\<forall>v. v \<noteq> src \<longrightarrow> distances st v = Infinity)) \<and>
     (\<forall>u \<in> visited s st. \<forall>w \<in> set (connections s u).
        w \<in> set (nodes s) \<longrightarrow> distances st w \<noteq> Infinity)"

definition good_result :: "simulator \<Rightarrow> nat \<Rightarrow> nat \<Rightarrow> (nat list option \<times> distance) \<Rightarrow> bool" where
  "good_result s src dst r \<longleftrightarrow>
     (if reachable s src dst
      then \<exists>p. r = (Some p, Finite (path_cost s p)) \<and> p \<noteq> [] \<and> hd p = src \<and> last p = dst \<and> is_path s p
      else r = (None, Infinity))"

section \<open>Stages of slow start\<close>

text \<open>After \<open>j\<close> normal acknowledgments a fresh flow has window \<open>2 ^ j\<close>, up to \<open>j = 6\<close>.\<close>

definition ss_stage :: "nat \<Rightarrow> packet \<Rightarrow> bool" where
  "ss_stage j p \<longleftrightarrow> cwnd p = 2 ^ j \<and> ssthresh p = 64 \<and>
      phase p = (if j = 6 then ''congestion_avoidance'' else ''slow_start'')"

section \<open>Example states\<close>

text \<open>The simulator as \<^verbatim>\<open>__init__\<close> leaves it, with no node yet.\<close>

definition init_simulator :: simulator where
  "init_simulator =
     \<lparr> nodes = [], node_name = (\<lambda>n. []), latency = (\<lambda>n. 0), connections = (\<lambda>n. []),
       congestion = (\<lambda>n. 0), packets = [], simulation_running = False,
       manual_packet_mode = False, active_manual_packet_ids = {},
       traffic_load = ''medium'', congestion_algorithm = ''reno'', packet_loss_rate = 0,
       packet_counter = 0, packet_events = [], random_source = (\<lambda>i. 0), random_pos = 0 \<rparr>"

text \<open>The linear topology A - B - C (nodes 0, 1, 2) with latencies 10, 20 and \<open>lc\<close>.\<close>

definition linear_abc :: "simulator \<Rightarrow> int \<Rightarrow> simulator" where
  "linear_abc s lc =
     s\<lparr> nodes := [0, 1, 2],
        node_name := (\<lambda>n. if n = 0 then ''A'' else if n = 1 then ''B'' else ''C''),
        latency := (\<lambda>n. if n = 0 then 10 else if n = 1 then 20 else lc),
        connections := (\<lambda>n. if n = 0 then [1] else if n = 1 then [0, 2]
                             else if n = 2 then [1] else []) \<rparr>"

text \<open>One node of latency 10 whose congestion is \<open>c\<close>, under the algorithm \<open>alg\<close>.\<close>

definition one_node :: "string \<Rightarrow> real \<Rightarrow> simulator" where
  "one_node alg c =
     init_simulator\<lparr> nodes := [0], latency := (\<lambda>n. 10), congestion := (\<lambda>n. c),
                     congestion_algorithm := alg \<rparr>"

definition example_packet :: packet where
  "example_packet = Packet 0 1 [0, 1] 1 0"

text \<open>
  The linear topology with a loss rate of 10 percent (the random source of
  \<open>init_simulator\<close> draws 0, so a random flow is dropped there); the same nodes with no
  connection at all; and the lossy linear topology with an event log that holds 500
  entries.
\<close>

definition lossy_abc :: simulator where
  "lossy_abc = linear_abc (init_simulator\<lparr>packet_loss_rate := 10\<rparr>) 5"

definition islands_abc :: simulator where
  "islands_abc = (linear_abc init_simulator 5)\<lparr>connections := (\<lambda>n. [])\<rparr>"

text \<open>The unconnected nodes while the automatic simulation is running.\<close>

definition running_islands_abc :: simulator where
  "running_islands_abc = islands_abc\<lparr>simulation_running := True\<rparr>"

definition full_log_abc :: simulator where
  "full_log_abc =
     linear_abc (init_simulator\<lparr>packet_loss_rate := 10,
        packet_events := replicate 500
          \<lparr> ev_packet_id = 1, ev_cwnd = 0, ev_phase = ''dropped'', ev_rtt = 0,
            ev_event_type = ''dropped'', ev_throughput = 0, ev_node_congestion = 0 \<rparr>\<rparr>) 5"

section \<open>Congestion control: the cases of a hop entry\<close>

lemmas hcc_defs = handle_congestion_control_def handle_timeout_reno_def handle_timeout_tahoe_def
  handle_fast_retransmit_reno_def handle_fast_retransmit_tahoe_def update_cwnd_def set_phase_def
  Let_def split_def

lemma hcc_dup_only:
  assumes "7 < congestion s n" "congestion s n \<le> 9" "dup_ack_count p + 1 < 3"
  shows "handle_congestion_control s p n =
           (s, p\<lparr>rtt := real_of_int (latency s n) + congestion s n * 5,
                 dup_ack_count := dup_ack_count p + 1\<rparr>)"
  using assms by (simp add: hcc_defs)

lemma hcc_fire_reno:
  assumes "7 < congestion s n" "congestion s n \<le> 9" "3 \<le> dup_ack_count p + 1"
    "congestion_algorithm s = ''reno''"
  shows "snd (handle_congestion_control s p n) =
           p\<lparr>rtt := real_of_int (latency s n) + congestion s n * 5,
              ssthresh := max (cwnd p / 2) 2, cwnd := max (cwnd p / 2) 2 + 3,
              phase := ''fast_recovery'', retransmitted := True, dup_ack_count := 0\<rparr>"
  using assms by (simp add: hcc_defs)

lemma hcc_fire_tahoe:
  assumes "7 < congestion s n" "congestion s n \<le> 9" "3 \<le> dup_ack_count p + 1"
    "congestion_algorithm s \<noteq> ''reno''"
  shows "snd (handle_congestion_control s p n) =
           p\<lparr>rtt := real_of_int (latency s n) + congestion s n * 5,
              ssthresh := max (cwnd p / 2) 2, cwnd := 1,
              phase := ''slow_start'', retransmitted := True, dup_ack_count := 0\<rparr>"
  using assms by (simp add: hcc_defs)

lemma hcc_timeout:
  assumes "9 < congestion s n"
  shows "snd (handle_congestion_control s p n) =
           p\<lparr>rtt := real_of_int (latency s n) + congestion s n * 5,
              ssthresh := max (cwnd p / 2) 2, cwnd := 1,
              phase := ''slow_start'', lost := True, dup_ack_count := 0\<rparr>"
  using assms by (simp add: hcc_defs)

lemma hcc_floors:
  assumes "1 \<le> cwnd p" "2 \<le> ssthresh p"
  shows "1 \<le> cwnd (snd (handle_congestion_control s p n)) \<and> 2 \<le> ssthresh (snd (handle_congestion_control s p n))"
proof -
  have "0 \<le> 1 / cwnd p" using assms by simp
  then have "1 \<le> cwnd p + 1 / cwnd p" using assms by linarith
  then show ?thesis using assms
    by (auto simp: hcc_defs)
qed

lemma hop_entries_floors:
  "1 \<le> cwnd p \<Longrightarrow> 2 \<le> ssthresh p \<Longrightarrow>
   1 \<le> cwnd (hop_entries p hs) \<and> 2 \<le> ssthresh (hop_entries p hs)"
proof (induction hs arbitrary: p)
  case Nil
  then show ?case by simp
next
  case (Cons h hs)
  obtain s n where h: "h = (s, n)" by (cases h)
  from hcc_floors[OF Cons.prems] Cons.IH show ?case unfolding h by simp
qed

lemma pow2_lt_64: "j < 6 \<Longrightarrow> (2::real) ^ j * 2 \<le> 64 \<and> (j < 5 \<longrightarrow> (2::real) ^ j * 2 < 64) \<and> (j = 5 \<longrightarrow> (2::real)^j * 2 = 64)"
proof -
  assume "j < 6"
  then consider "j = 0" | "j = 1" | "j = 2" | "j = 3" | "j = 4" | "j = 5" by linarith
  then show ?thesis by cases simp_all
qed

lemma hcc_ss_stage:
  assumes "ss_stage j p" "j < 6" "congestion s n \<le> 7"
  shows "ss_stage (Suc j) (snd (handle_congestion_control s p n))"
proof -
  have ph: "phase p = ''slow_start''" and c: "cwnd p = 2 ^ j" and t: "ssthresh p = 64"
    using assms(1,2) by (simp_all add: ss_stage_def)
  from pow2_lt_64[OF assms(2)] have le: "(2::real) ^ j * 2 \<le> 64"
    and lt: "j < 5 \<Longrightarrow> (2::real) ^ j * 2 < 64" and eq: "j = 5 \<Longrightarrow> (2::real) ^ j * 2 = 64" by auto
  have pos: "(0::real) < 2 ^ j" by simp
  have lt0: "(2::real) ^ j < 64" using le pos by linarith
  show ?thesis
  proof (cases "j = 5")
    case True
    then show ?thesis using assms(3) ph c t eq
      by (simp add: hcc_defs ss_stage_def)
  next
    case False
    then have "j < 5" using assms(2) by simp
    then show ?thesis using assms(3) ph c t lt lt0
      by (simp add: hcc_defs ss_stage_def min_def)
  qed
qed

lemma hop_entries_ss_stage:
  "ss_stage j p \<Longrightarrow> j + length hs \<le> 6 \<Longrightarrow> (\<forall>h \<in> set hs. congestion (fst h) (snd h) \<le> 7) \<Longrightarrow>
   ss_stage (j + length hs) (hop_entries p hs)"
proof (induction hs arbitrary: j p)
  case Nil
  then show ?case by simp
next
  case (Cons h hs)
  obtain s n where h: "h = (s, n)" by (cases h)
  have "ss_stage (Suc j) (snd (handle_congestion_control s p n))"
    using hcc_ss_stage[of j p s n] Cons.prems h by simp
  from Cons.IH[OF this] Cons.prems show ?case by (simp add: h)
qed

lemma hcc_tahoe_phase:
  assumes "congestion_algorithm s \<noteq> ''reno''" "phase p \<noteq> ''fast_recovery''"
  shows "phase (snd (handle_congestion_control s p n)) \<noteq> ''fast_recovery''"
  using assms by (simp add: hcc_defs)

lemma hop_entries_tahoe_phase:
  "\<forall>h \<in> set hs. congestion_algorithm (fst h) \<noteq> ''reno'' \<Longrightarrow> phase p \<noteq> ''fast_recovery'' \<Longrightarrow>
   phase (hop_entries p hs) \<noteq> ''fast_recovery''"
proof (induction hs arbitrary: p)
  case Nil
  then show ?case by simp
next
  case (Cons h hs)
  obtain s n where h: "h = (s, n)" by (cases h)
  have "phase (snd (handle_congestion_control s p n)) \<noteq> ''fast_recovery''"
    using hcc_tahoe_phase[of s p n] Cons.prems h by simp
  from Cons.IH[OF _ this] Cons.prems show ?case by (simp add: h)
qed

section \<open>The path finder returns what it owes\<close>

subsection \<open>Choosing the nearest unvisited node\<close>

lemma dist_less_irrefl: "\<not> dist_less a a"
  by (cases a) simp_all

lemma dist_less_cut: "\<not> dist_less a b \<Longrightarrow> dist_less c b \<Longrightarrow> \<not> dist_less a c"
  by (cases a; cases b; cases c) simp_all

lemma dist_less_Infinity: "\<not> dist_less a Infinity \<Longrightarrow> a = Infinity"
  by (cases a) simp_all

lemma dist_less_finite: "dist_less a b \<Longrightarrow> a \<noteq> Infinity"
  by (cases a) simp_all

lemma min_from_mem: "min_from d b xs \<in> set (b # xs)"
  by (induction xs arbitrary: b) auto

lemma min_from_least_aux:
  "\<forall>y \<in> S. \<not> dist_less (d y) (d b) \<Longrightarrow>
   \<forall>y \<in> S \<union> set xs. \<not> dist_less (d y) (d (min_from d b xs))"
proof (induction xs arbitrary: b S)
  case Nil
  then show ?case by simp
next
  case (Cons x xs)
  let ?b = "if dist_less (d x) (d b) then x else b"
  have "\<forall>y \<in> insert x S. \<not> dist_less (d y) (d ?b)"
    using Cons.prems by (auto simp: dist_less_irrefl dest: dist_less_cut)
  from Cons.IH[OF this] show ?case by simp
qed

lemma min_from_least: "y \<in> set (b # xs) \<Longrightarrow> \<not> dist_less (d y) (d (min_from d b xs))"
  using min_from_least_aux[of "{b}" d b xs] by (auto simp: dist_less_irrefl)

subsection \<open>Paths of the predecessor tree\<close>

lemma is_path_snoc:
  "is_path s p \<Longrightarrow> v \<in> set (connections s (last p)) \<Longrightarrow> v \<in> set (nodes s) \<Longrightarrow>
   is_path s (p @ [v])"
  by (induction s p rule: is_path.induct) simp_all

lemma set_butlast_last: "p \<noteq> [] \<Longrightarrow> set p = insert (last p) (set (butlast p))"
proof -
  assume "p \<noteq> []"
  then have "p = butlast p @ [last p]" by simp
  then have "set p = set (butlast p @ [last p])" by simp
  then show ?thesis by simp
qed

lemma tree_path_props:
  "tree_path s Vis prev src v p \<Longrightarrow>
   p \<noteq> [] \<and> hd p = src \<and> last p = v \<and> set (butlast p) \<subseteq> Vis \<and> is_path s p \<and> reachable s src v"
proof (induction rule: tree_path.induct)
  case tp_root
  then show ?case by (simp add: reach_refl)
next
  case (tp_step u p v)
  then have "set p \<subseteq> Vis" using set_butlast_last[of p] by auto
  with tp_step show ?case
    by (auto simp: is_path_snoc butlast_append intro: reach_step)
qed

lemma tree_path_reconstruct:
  "tree_path s Vis prev src v p \<Longrightarrow> reconstruct prev (Some v) acc = Some (acc @ rev p)"
proof (induction arbitrary: acc rule: tree_path.induct)
  case tp_root
  then show ?case by (simp add: reconstruct.simps)
next
  case (tp_step u p v)
  have "reconstruct prev (Some v) acc = reconstruct prev (Some u) (acc @ [v])"
    using tp_step.hyps by (subst reconstruct.simps) simp
  then show ?case using tp_step.IH[of "acc @ [v]"] by simp
qed

lemma tree_path_mono:
  "tree_path s Vis prev src v p \<Longrightarrow> Vis \<subseteq> Vis' \<Longrightarrow> \<forall>x \<in> set p. prev' x = prev x \<Longrightarrow>
   tree_path s Vis' prev' src v p"
proof (induction rule: tree_path.induct)
  case tp_root
  then show ?case by (simp add: tree_path.tp_root)
next
  case (tp_step u p v)
  then show ?case by (auto intro!: tree_path.tp_step)
qed

lemma tree_path_avoids:
  assumes "tree_path s Vis prev src v p" "w \<notin> Vis" "w \<noteq> v"
  shows "w \<notin> set p"
proof -
  from tree_path_props[OF assms(1)] have ne: "p \<noteq> []" and l: "last p = v"
    and b: "set (butlast p) \<subseteq> Vis" by auto
  have "set p = insert (last p) (set (butlast p))"
    using ne by (rule set_butlast_last)
  then show ?thesis using assms(2,3) l b by auto
qed

lemma path_cost_snoc: "p \<noteq> [] \<Longrightarrow> path_cost s (p @ [v]) = path_cost s p + latency s (last p)"
proof -
  assume ne: "p \<noteq> []"
  then have "p = butlast p @ [last p]" by simp
  then have "sum_list (map (latency s) p) = sum_list (map (latency s) (butlast p)) + latency s (last p)"
    by (metis (no_types) map_append sum_list.append list.simps(8,9) sum_list.Cons sum_list.Nil add.right_neutral)
  then show ?thesis by (simp add: path_cost_def butlast_append)
qed

subsection \<open>Relaxation\<close>

lemma relax_unvisited: "unvisited (relax s c st n) = unvisited st"
  by (simp add: relax_def Let_def)

lemma foldl_relax_unvisited: "unvisited (foldl (relax s c) st ns) = unvisited st"
  by (induction ns arbitrary: st) (simp_all add: relax_unvisited)

lemma relax_visited: "visited s (relax s c st n) = visited s st"
  by (simp add: visited_def relax_unvisited)

lemma relax_finite_mono:
  "distances st w \<noteq> Infinity \<Longrightarrow> distances (relax s c st n) w \<noteq> Infinity"
  by (auto simp: relax_def Let_def dest: dist_less_finite)

lemma foldl_relax_finite_mono:
  "distances st w \<noteq> Infinity \<Longrightarrow> distances (foldl (relax s c) st ns) w \<noteq> Infinity"
  by (induction ns arbitrary: st) (simp_all add: relax_finite_mono)

lemma relax_neighbor_finite:
  assumes "distances st c \<noteq> Infinity" "n \<in> set (unvisited st)"
  shows "distances (relax s c st n) n \<noteq> Infinity"
proof -
  obtain dc where dc: "distances st c = Finite dc" using assms(1) by (cases "distances st c") auto
  show ?thesis using assms(2) dc
    by (cases "distances st n") (auto simp: relax_def Let_def)
qed

lemma foldl_relax_neighbors_finite:
  "distances st c \<noteq> Infinity \<Longrightarrow> w \<in> set ns \<Longrightarrow> w \<in> set (unvisited st) \<Longrightarrow>
   distances (foldl (relax s c) st ns) w \<noteq> Infinity"
proof (induction ns arbitrary: st)
  case Nil
  then show ?case by simp
next
  case (Cons n ns)
  have c1: "distances (relax s c st n) c \<noteq> Infinity"
    using Cons.prems(1) by (rule relax_finite_mono)
  show ?case
  proof (cases "w = n")
    case True
    have "distances (relax s c st n) n \<noteq> Infinity"
      using Cons.prems(1,3) True by (simp add: relax_neighbor_finite)
    then show ?thesis using True by (simp add: foldl_relax_finite_mono)
  next
    case False
    then have "w \<in> set ns" using Cons.prems(2) by simp
    from Cons.IH[OF c1 this] Cons.prems(3) show ?thesis by (simp add: relax_unvisited)
  qed
qed

lemma tree_ok_path:
  "tree_ok s src st \<Longrightarrow> distances st v = Finite k \<Longrightarrow>
   \<exists>p. tree_path s (visited s st) (previous st) src v p \<and> k = path_cost s p"
  unfolding tree_ok_def by blast

lemma relax_tree_ok:
  assumes ok: "tree_ok s src st" and c: "c \<in> visited s st" and srcv: "src \<notin> set (unvisited st)"
    and conn: "n \<in> set (connections s c)"
  shows "tree_ok s src (relax s c st n)"
proof (cases "n \<in> set (unvisited st) \<and>
              dist_less (dist_add (distances st c) (latency s c)) (distances st n)")
  case False
  then have "relax s c st n = st" by (auto simp: relax_def Let_def)
  then show ?thesis using ok by simp
next
  case True
  let ?V = "visited s st"
  from ok c have "distances st c \<noteq> Infinity" by (simp add: tree_ok_def)
  then obtain dc where dc: "distances st c = Finite dc" by (cases "distances st c") auto
  let ?alt = "Finite (dc + latency s c)"
  let ?prev' = "(previous st)(n := Some c)"
  have st': "relax s c st n = st\<lparr>distances := (distances st)(n := ?alt), previous := ?prev'\<rparr>"
    using True dc by (simp add: relax_def Let_def)
  have nU: "n \<in> set (unvisited st)" using True by simp
  then have nV: "n \<notin> ?V" by (simp add: visited_def)
  have nsrc: "n \<noteq> src" using nU srcv by auto
  have nc: "n \<noteq> c" using nV c by auto
  have nnodes: "n \<in> set (nodes s)" using ok nU by (auto simp: tree_ok_def)
  from tree_ok_path[OF ok dc] obtain pc
    where pc: "tree_path s ?V (previous st) src c pc" and cost: "dc = path_cost s pc"
    by blast
  have keep: "tree_path s ?V ?prev' src v p" if "tree_path s ?V (previous st) src v p" "v \<noteq> n" for v p
  proof -
    have "n \<notin> set p" using tree_path_avoids[OF that(1) nV] that(2) by auto
    then have "\<forall>x \<in> set p. ?prev' x = previous st x" by auto
    from tree_path_mono[OF that(1) subset_refl this] show ?thesis .
  qed
  have pc': "tree_path s ?V ?prev' src c pc" using keep[OF pc] nc by simp
  have pn: "tree_path s ?V ?prev' src n (pc @ [n])"
    using tp_step[OF pc' c, of n] nnodes conn by simp
  have pcprops: "pc \<noteq> [] \<and> last pc = c" using tree_path_props[OF pc] by simp
  have newcost: "dc + latency s c = path_cost s (pc @ [n])"
    using pcprops cost by (simp add: path_cost_snoc)
  have vis': "visited s (relax s c st n) = ?V" by (rule relax_visited)
  have paths: "\<exists>p. tree_path s ?V ?prev' src v p \<and> k = path_cost s p"
    if "((distances st)(n := ?alt)) v = Finite k" for v k
  proof (cases "v = n")
    case True
    then have "k = dc + latency s c" using that by simp
    then show ?thesis using pn newcost True by blast
  next
    case False
    then have "distances st v = Finite k" using that by simp
    from tree_ok_path[OF ok this] obtain p
      where "tree_path s ?V (previous st) src v p" "k = path_cost s p" by blast
    then show ?thesis using keep[OF _ False] by blast
  qed
  have fin: "\<forall>u \<in> ?V. ((distances st)(n := ?alt)) u \<noteq> Infinity"
    using ok by (simp add: tree_ok_def)
  have base: "src \<in> set (nodes s) \<and> ?prev' src = None \<and> ((distances st)(n := ?alt)) src = Finite 0
      \<and> set (unvisited st) \<subseteq> set (nodes s)"
    using ok nsrc by (simp add: tree_ok_def)
  show ?thesis
    unfolding tree_ok_def vis' using base paths fin by (simp add: st')
qed

lemma foldl_relax_tree_ok:
  "tree_ok s src st \<Longrightarrow> c \<in> visited s st \<Longrightarrow> src \<notin> set (unvisited st) \<Longrightarrow>
   set ns \<subseteq> set (connections s c) \<Longrightarrow> tree_ok s src (foldl (relax s c) st ns)"
proof (induction ns arbitrary: st)
  case Nil
  then show ?case by simp
next
  case (Cons n ns)
  have "tree_ok s src (relax s c st n)"
    using relax_tree_ok[OF Cons.prems(1,2,3)] Cons.prems(4) by simp
  from Cons.IH[OF this] Cons.prems show ?case by (simp add: relax_visited relax_unvisited)
qed

subsection \<open>The main loop\<close>

lemma dijkstra_step:
  assumes inv: "dinv s src dst st" and u: "unvisited st = x # xs"
    and cur: "current = min_from (distances st) x xs"
    and fin: "distances st current \<noteq> Infinity" and nd: "current \<noteq> dst"
  shows "dinv s src dst (foldl (relax s current)
           (st\<lparr>unvisited := remove1 current (unvisited st)\<rparr>) (connections s current))"
proof -
  let ?st0 = "st\<lparr>unvisited := remove1 current (unvisited st)\<rparr>"
  let ?st' = "foldl (relax s current) ?st0 (connections s current)"
  from inv have ok: "tree_ok s src st" and dis: "distinct (unvisited st)"
    and dstU: "dst \<in> set (nodes s) \<Longrightarrow> dst \<in> set (unvisited st)"
    and first: "src \<in> set (unvisited st) \<Longrightarrow> \<forall>v. v \<noteq> src \<longrightarrow> distances st v = Infinity"
    and closed: "\<forall>u \<in> visited s st. \<forall>w \<in> set (connections s u).
        w \<in> set (nodes s) \<longrightarrow> distances st w \<noteq> Infinity"
    by (simp_all add: dinv_def)
  have sub: "set (unvisited st) \<subseteq> set (nodes s)" using ok by (simp add: tree_ok_def)
  have cU: "current \<in> set (unvisited st)" using min_from_mem[of "distances st" x xs] u cur by simp
  have cN: "current \<in> set (nodes s)" using cU sub by auto
  have U0: "set (unvisited ?st0) = set (unvisited st) - {current}" using dis by simp
  have V0: "visited s ?st0 = insert current (visited s st)"
    using cN U0 by (auto simp: visited_def)
  have srcU0: "src \<notin> set (unvisited ?st0)"
  proof (cases "src \<in> set (unvisited st)")
    case True
    from first[OF True] fin have "current = src" by auto
    then show ?thesis using U0 by simp
  next
    case False
    then show ?thesis using U0 by simp
  qed
  have ok0: "tree_ok s src ?st0"
  proof -
    have paths: "\<exists>p. tree_path s (insert current (visited s st)) (previous st) src v p \<and> k = path_cost s p"
      if "distances st v = Finite k" for v k
    proof -
      from tree_ok_path[OF ok that] obtain p
        where p: "tree_path s (visited s st) (previous st) src v p" "k = path_cost s p" by blast
      have "tree_path s (insert current (visited s st)) (previous st) src v p"
        by (rule tree_path_mono[OF p(1)]) auto
      then show ?thesis using p(2) by blast
    qed
    have fin0: "\<forall>u \<in> insert current (visited s st). distances st u \<noteq> Infinity"
      using ok fin by (simp add: tree_ok_def)
    have base: "src \<in> set (nodes s) \<and> previous st src = None \<and> distances st src = Finite 0"
      using ok by (simp add: tree_ok_def)
    have sub0: "set (unvisited ?st0) \<subseteq> set (nodes s)" using U0 sub by auto
    show ?thesis unfolding tree_ok_def V0 using base paths fin0 sub0 by simp
  qed
  have cV0: "current \<in> visited s ?st0" using V0 by simp
  have ok': "tree_ok s src ?st'"
    by (rule foldl_relax_tree_ok[OF ok0 cV0 srcU0 subset_refl])
  have unv': "unvisited ?st' = remove1 current (unvisited st)"
    by (simp add: foldl_relax_unvisited)
  have U': "set (unvisited ?st') = set (unvisited st) - {current}" using unv' dis by simp
  have V': "visited s ?st' = insert current (visited s st)"
    using V0 by (simp add: visited_def foldl_relax_unvisited)
  have d1: "distinct (unvisited ?st')" using unv' dis by simp
  have d2: "dst \<in> set (nodes s) \<longrightarrow> dst \<in> set (unvisited ?st')"
    using dstU nd U' by auto
  have d3: "src \<in> set (unvisited ?st') \<longrightarrow> (\<forall>v. v \<noteq> src \<longrightarrow> distances ?st' v = Infinity)"
    using srcU0 by (simp add: foldl_relax_unvisited)
  have d4: "distances ?st' w \<noteq> Infinity"
    if uV: "u \<in> visited s ?st'" and wc: "w \<in> set (connections s u)" and wN: "w \<in> set (nodes s)" for u w
  proof (cases "u = current")
    case False
    then have "u \<in> visited s st" using uV V' by simp
    with closed wc wN have "distances ?st0 w \<noteq> Infinity" by simp
    then show ?thesis by (rule foldl_relax_finite_mono)
  next
    case True
    show ?thesis
    proof (cases "w \<in> set (unvisited ?st0)")
      case True
      have "distances ?st0 current \<noteq> Infinity" using fin by simp
      from foldl_relax_neighbors_finite[OF this _ True, of "connections s current" s]
      show ?thesis using wc \<open>u = current\<close> by simp
    next
      case False
      then have "w \<in> visited s ?st'" using wN by (simp add: visited_def foldl_relax_unvisited)
      then show ?thesis using ok' by (simp add: tree_ok_def)
    qed
  qed
  show ?thesis unfolding dinv_def using ok' d1 d2 d3 d4 by blast
qed

lemma reachable_in_nodes: "reachable s src v \<Longrightarrow> v \<in> set (nodes s)"
  by (induction rule: reachable.induct) simp_all

lemma reachable_visited:
  assumes inv: "dinv s src dst st"
    and allinf: "\<forall>y \<in> set (unvisited st). distances st y = Infinity"
    and r: "reachable s src v"
  shows "v \<in> visited s st"
  using r
proof (induction rule: reachable.induct)
  case reach_refl
  have "distances st src = Finite 0" using inv by (simp add: dinv_def tree_ok_def)
  then have "src \<notin> set (unvisited st)" using allinf by auto
  then show ?case using reach_refl by (simp add: visited_def)
next
  case (reach_step u v)
  have "distances st v \<noteq> Infinity" using inv reach_step by (simp add: dinv_def)
  then have "v \<notin> set (unvisited st)" using allinf by auto
  then show ?case using reach_step by (simp add: visited_def)
qed

lemma not_reachable_when_stuck:
  assumes inv: "dinv s src dst st"
    and allinf: "\<forall>y \<in> set (unvisited st). distances st y = Infinity"
  shows "\<not> reachable s src dst"
proof
  assume r: "reachable s src dst"
  then have "dst \<in> visited s st" using reachable_visited[OF inv allinf] by simp
  moreover have "dst \<in> set (unvisited st)"
    using inv reachable_in_nodes[OF r] by (simp add: dinv_def)
  ultimately show False by (simp add: visited_def)
qed

lemma dijkstra_loop_result:
  "dinv s src dst st \<Longrightarrow> \<exists>r. dijkstra_loop s dst st = Some r \<and> good_result s src dst r"
proof (induction s dst st rule: dijkstra_loop.induct)
  case (1 s dst st)
  show ?case
  proof (cases "unvisited st")
    case Nil
    then have "\<not> reachable s src dst" using not_reachable_when_stuck[OF "1.prems"] by simp
    then show ?thesis using Nil by (subst dijkstra_loop.simps) (simp add: good_result_def)
  next
    case (Cons x xs)
    define current where "current = min_from (distances st) x xs"
    show ?thesis
    proof (cases "distances st current = Infinity")
      case True
      have "\<forall>y \<in> set (unvisited st). distances st y = Infinity"
      proof
        fix y assume "y \<in> set (unvisited st)"
        then have "\<not> dist_less (distances st y) (distances st current)"
          unfolding current_def using Cons min_from_least[of y x xs "distances st"] by simp
        then show "distances st y = Infinity" using True by (simp add: dist_less_Infinity)
      qed
      then have "\<not> reachable s src dst" using not_reachable_when_stuck[OF "1.prems"] by simp
      then show ?thesis using Cons True
        by (subst dijkstra_loop.simps) (simp add: good_result_def current_def Let_def)
    next
      case False
      then obtain k where k: "distances st current = Finite k"
        by (cases "distances st current") auto
      show ?thesis
      proof (cases "current = dst")
        case True
        from "1.prems" have ok: "tree_ok s src st" by (simp add: dinv_def)
        from tree_ok_path[OF ok k] obtain p
          where p: "tree_path s (visited s st) (previous st) src current p" "k = path_cost s p"
          by blast
        have rec: "reconstruct (previous st) (Some current) [] = Some (rev p)"
          using tree_path_reconstruct[OF p(1), of "[]"] by simp
        have props: "p \<noteq> [] \<and> hd p = src \<and> last p = dst \<and> is_path s p \<and> reachable s src dst"
          using tree_path_props[OF p(1)] True by simp
        have "dijkstra_loop s dst st = Some (Some p, Finite (path_cost s p))"
          using Cons k True rec p(2)
          by (subst dijkstra_loop.simps) (simp add: current_def[symmetric] Let_def)
        then show ?thesis using props by (simp add: good_result_def)
      next
        case ncd: False
        let ?st' = "foldl (relax s current) (st\<lparr>unvisited := remove1 current (unvisited st)\<rparr>)
                      (connections s current)"
        have inv': "dinv s src dst ?st'"
          by (rule dijkstra_step[OF "1.prems" Cons current_def False ncd])
        have IH: "\<exists>r. dijkstra_loop s dst ?st' = Some r \<and> good_result s src dst r"
          by (rule "1.IH"[OF Cons current_def False ncd inv'])
        have "dijkstra_loop s dst st = dijkstra_loop s dst ?st'"
          using Cons False ncd
          by (subst dijkstra_loop.simps) (simp add: current_def[symmetric] Let_def)
        then show ?thesis using IH by simp
      qed
    qed
  qed
qed

lemma dinv_initial:
  assumes "distinct ord" "set ord = set (nodes s)" "src \<in> set (nodes s)"
  shows "dinv s src dst \<lparr> distances = (\<lambda>node. Infinity)(src := Finite 0),
         previous = (\<lambda>node. None), unvisited = ord \<rparr>"
proof -
  have "tree_path s {} (\<lambda>node. None) src src [src]" using assms(3) by (simp add: tp_root)
  moreover have "path_cost s [src] = 0" by (simp add: path_cost_def)
  ultimately show ?thesis using assms
    by (auto simp: dinv_def tree_ok_def visited_def)
qed

lemma dijkstra_shortest_path_result:
  assumes "distinct ord" "set ord = set (nodes s)" "src \<in> set (nodes s)"
  shows "\<exists>r. dijkstra_shortest_path s ord src dst = Some r \<and> good_result s src dst r"
  unfolding dijkstra_shortest_path_def
  by (rule dijkstra_loop_result[OF dinv_initial[OF assms]])

section \<open>Properties of the flow state machine\<close>

lemmas example_defs = one_node_def init_simulator_def example_packet_def Packet_def

text \<open>
  C2. A flow starts with \<open>cwnd = 1\<close> and \<open>ssthresh = 64\<close> (\<open>Packet\<close>). After every
  sequence \<open>hs\<close> of hop-entry evaluations, whatever the congestion of the nodes entered and
  whatever algorithm each evaluation runs under, \<open>cwnd \<ge> 1\<close> and \<open>ssthresh \<ge> 2\<close>. Since
  \<open>hs\<close> is any sequence, this covers the state after each single transition.
\<close>

theorem C2_floors:
  "1 \<le> cwnd (hop_entries (Packet src dst pth pid rid) hs) \<and>
   2 \<le> ssthresh (hop_entries (Packet src dst pth pid rid) hs)"
  by (rule hop_entries_floors) (simp_all add: Packet_def)

text \<open>
  C3. A flow with duplicate counter 0 meets three hop entries in a row whose node
  congestion is above 7 and not above 9. The first two leave window, threshold and phase
  alone and bring the counter to 2. At the third, under Reno the flow is in
  \<open>fast_recovery\<close> with \<open>ssthresh = max (cwnd / 2) 2\<close> and \<open>cwnd = ssthresh + 3\<close>, under
  Tahoe it is in \<open>slow_start\<close> with the same threshold and \<open>cwnd = 1\<close>; in both the
  retransmitted flag is set and the counter is 0 again. Here \<open>cwnd\<close> on the right is the
  window the flow had at the triggering entry.
\<close>

theorem C3_three_duplicate_signals:
  assumes "dup_ack_count p = 0"
    and "7 < congestion s1 n1" "congestion s1 n1 \<le> 9"
    and "7 < congestion s2 n2" "congestion s2 n2 \<le> 9"
    and "7 < congestion s3 n3" "congestion s3 n3 \<le> 9"
  shows "(let p2 = hop_entries p [(s1, n1), (s2, n2)];
              p3 = hop_entries p [(s1, n1), (s2, n2), (s3, n3)]
          in cwnd p2 = cwnd p \<and> ssthresh p2 = ssthresh p \<and> phase p2 = phase p
           \<and> dup_ack_count p2 = 2
           \<and> (congestion_algorithm s3 = ''reno'' \<longrightarrow>
                phase p3 = ''fast_recovery'' \<and> ssthresh p3 = max (cwnd p / 2) 2
                \<and> cwnd p3 = max (cwnd p / 2) 2 + 3 \<and> retransmitted p3 \<and> dup_ack_count p3 = 0)
           \<and> (congestion_algorithm s3 = ''tahoe'' \<longrightarrow>
                phase p3 = ''slow_start'' \<and> ssthresh p3 = max (cwnd p / 2) 2
                \<and> cwnd p3 = 1 \<and> retransmitted p3 \<and> dup_ack_count p3 = 0))"
proof -
  let ?q1 = "snd (handle_congestion_control s1 p n1)"
  let ?q2 = "snd (handle_congestion_control s2 ?q1 n2)"
  let ?q3 = "snd (handle_congestion_control s3 ?q2 n3)"
  have q1: "?q1 = p\<lparr>rtt := real_of_int (latency s1 n1) + congestion s1 n1 * 5, dup_ack_count := 1\<rparr>"
    using hcc_dup_only[of s1 n1 p] assms by simp
  have q2: "?q2 = p\<lparr>rtt := real_of_int (latency s2 n2) + congestion s2 n2 * 5, dup_ack_count := 2\<rparr>"
    using hcc_dup_only[of s2 n2 ?q1] assms by (simp add: q1)
  have d2: "3 \<le> dup_ack_count ?q2 + 1" by (simp add: q2)
  have reno: "congestion_algorithm s3 = ''reno'' \<Longrightarrow>
          phase ?q3 = ''fast_recovery'' \<and> ssthresh ?q3 = max (cwnd p / 2) 2
          \<and> cwnd ?q3 = max (cwnd p / 2) 2 + 3 \<and> retransmitted ?q3 \<and> dup_ack_count ?q3 = 0"
    using hcc_fire_reno[OF assms(6,7) d2] by (simp add: q2)
  have tahoe: "congestion_algorithm s3 = ''tahoe'' \<Longrightarrow>
          phase ?q3 = ''slow_start'' \<and> ssthresh ?q3 = max (cwnd p / 2) 2
          \<and> cwnd ?q3 = 1 \<and> retransmitted ?q3 \<and> dup_ack_count ?q3 = 0"
    using hcc_fire_tahoe[OF assms(6,7) d2] by (simp add: q2)
  have two: "cwnd ?q2 = cwnd p \<and> ssthresh ?q2 = ssthresh p \<and> phase ?q2 = phase p
      \<and> dup_ack_count ?q2 = 2" by (simp add: q2)
  show ?thesis unfolding Let_def hop_entries.simps using reno tahoe two by blast
qed

theorem C3_three_duplicate_signals_witness:
  "dup_ack_count example_packet = 0 \<and> 7 < congestion (one_node ''reno'' 8) 0
   \<and> congestion (one_node ''reno'' 8) 0 \<le> 9
   \<and> 7 < congestion (one_node ''tahoe'' 8) 0 \<and> congestion (one_node ''tahoe'' 8) 0 \<le> 9
   \<and> phase (hop_entries example_packet
        [(one_node ''reno'' 8, 0), (one_node ''reno'' 8, 0), (one_node ''reno'' 8, 0)]) = ''fast_recovery''
   \<and> cwnd (hop_entries example_packet
        [(one_node ''reno'' 8, 0), (one_node ''reno'' 8, 0), (one_node ''reno'' 8, 0)]) = 5
   \<and> phase (hop_entries example_packet
        [(one_node ''tahoe'' 8, 0), (one_node ''tahoe'' 8, 0), (one_node ''tahoe'' 8, 0)]) = ''slow_start''
   \<and> cwnd (hop_entries example_packet
        [(one_node ''tahoe'' 8, 0), (one_node ''tahoe'' 8, 0), (one_node ''tahoe'' 8, 0)]) = 1"
proof -
  have d: "dup_ack_count example_packet = 0" by (simp add: example_defs)
  have r: "7 < congestion (one_node ''reno'' 8) 0" "congestion (one_node ''reno'' 8) 0 \<le> 9"
    by (simp_all add: example_defs)
  have t: "7 < congestion (one_node ''tahoe'' 8) 0" "congestion (one_node ''tahoe'' 8) 0 \<le> 9"
    by (simp_all add: example_defs)
  have ar: "congestion_algorithm (one_node ''reno'' 8) = ''reno''" by (simp add: example_defs)
  have at: "congestion_algorithm (one_node ''tahoe'' 8) = ''tahoe''" by (simp add: example_defs)
  have c: "cwnd example_packet = 1" by (simp add: example_defs)
  show ?thesis
    using C3_three_duplicate_signals[OF d r r r]
      C3_three_duplicate_signals[OF d t t t] d r t ar at c
    by (simp add: Let_def)
qed

text \<open>
  C4. A hop entry at a node whose congestion is above 9 sets, under any algorithm,
  \<open>ssthresh = max (cwnd / 2) 2\<close>, \<open>cwnd = 1\<close>, phase \<open>slow_start\<close>, the lost flag, and the
  duplicate counter to 0.
\<close>

theorem C4_timeout:
  assumes "9 < congestion s n"
  shows "(let p' = snd (handle_congestion_control s p n)
          in ssthresh p' = max (cwnd p / 2) 2 \<and> cwnd p' = 1 \<and> phase p' = ''slow_start''
           \<and> lost p' \<and> dup_ack_count p' = 0)"
  using hcc_timeout[OF assms, of p] by (simp add: Let_def)

theorem C4_timeout_witness:
  "9 < congestion (one_node ''reno'' 10) 0 \<and> 9 < congestion (one_node ''tahoe'' 10) 0
   \<and> cwnd (snd (handle_congestion_control (one_node ''reno'' 10) example_packet 0)) = 1
   \<and> lost (snd (handle_congestion_control (one_node ''reno'' 10) example_packet 0))
   \<and> phase (snd (handle_congestion_control (one_node ''tahoe'' 10) example_packet 0)) = ''slow_start''
   \<and> ssthresh (snd (handle_congestion_control (one_node ''tahoe'' 10) example_packet 0)) = 2"
proof -
  have r: "9 < congestion (one_node ''reno'' 10) 0" by (simp add: example_defs)
  have t: "9 < congestion (one_node ''tahoe'' 10) 0" by (simp add: example_defs)
  have c: "cwnd example_packet = 1" by (simp add: example_defs)
  show ?thesis
    using C4_timeout[OF r, of example_packet] C4_timeout[OF t, of example_packet] r t c
    by (simp add: Let_def)
qed

text \<open>
  C5. A fresh flow (\<open>cwnd = 1\<close>, \<open>ssthresh = 64\<close>, \<open>slow_start\<close>) that meets six hop entries
  on the normal-acknowledgment path (node congestion at most 7) has window \<open>2 ^ k\<close> after
  the first \<open>k\<close> of them, so 64 after the sixth and less before; its phase is still
  \<open>slow_start\<close> after fewer than six and \<open>congestion_avoidance\<close> after the sixth.
\<close>

theorem C5_slow_start_doubling:
  assumes "length hs = 6" and "\<forall>h \<in> set hs. congestion (fst h) (snd h) \<le> 7"
    and "k \<le> 6"
  shows "cwnd (hop_entries (Packet src dst pth pid rid) (take k hs)) = 2 ^ k
       \<and> phase (hop_entries (Packet src dst pth pid rid) (take k hs)) =
           (if k = 6 then ''congestion_avoidance'' else ''slow_start'')
       \<and> cwnd (hop_entries (Packet src dst pth pid rid) hs) = 64"
proof -
  have init: "ss_stage 0 (Packet src dst pth pid rid)" by (simp add: ss_stage_def Packet_def)
  have tk: "\<forall>h \<in> set (take k hs). congestion (fst h) (snd h) \<le> 7"
    using assms(2) by (meson in_set_takeD)
  have "ss_stage (0 + length (take k hs)) (hop_entries (Packet src dst pth pid rid) (take k hs))"
    by (rule hop_entries_ss_stage[OF init _ tk]) (use assms in simp)
  moreover have "length (take k hs) = k" using assms by simp
  moreover have "ss_stage (0 + length hs) (hop_entries (Packet src dst pth pid rid) hs)"
    by (rule hop_entries_ss_stage[OF init _ assms(2)]) (use assms in simp)
  ultimately show ?thesis using assms(1) by (simp add: ss_stage_def)
qed

theorem C5_slow_start_doubling_witness:
  "length (replicate 6 (one_node ''reno'' 0, 0::nat)) = 6
   \<and> list_all (\<lambda>h. congestion (fst h) (snd h) \<le> 7) (replicate 6 (one_node ''reno'' 0, 0::nat))
   \<and> cwnd (hop_entries example_packet (replicate 5 (one_node ''reno'' 0, 0))) = 32
   \<and> phase (hop_entries example_packet (replicate 5 (one_node ''reno'' 0, 0))) = ''slow_start''
   \<and> cwnd (hop_entries example_packet (replicate 6 (one_node ''reno'' 0, 0))) = 64
   \<and> phase (hop_entries example_packet (replicate 6 (one_node ''reno'' 0, 0))) = ''congestion_avoidance''"
proof -
  let ?hs = "replicate 6 (one_node ''reno'' 0, 0::nat)"
  have l: "length ?hs = 6" by simp
  have a: "\<forall>h \<in> set ?hs. congestion (fst h) (snd h) \<le> 7" by (simp add: example_defs)
  have t5: "take 5 ?hs = replicate 5 (one_node ''reno'' 0, 0)" by simp
  have t6: "take 6 ?hs = ?hs" by simp
  have k5: "(5::nat) \<le> 6" and k6: "(6::nat) \<le> 6" by simp_all
  show ?thesis
    using C5_slow_start_doubling[OF l a k5, of 0 1 "[0, 1]" 1 0]
      C5_slow_start_doubling[OF l a k6, of 0 1 "[0, 1]" 1 0] l a
    unfolding t5 t6 example_packet_def list_all_iff by simp
qed

text \<open>
  C6. When every hop entry of a flow is evaluated under Tahoe, the flow is never in phase
  \<open>fast_recovery\<close>, after any sequence of hop entries and any node congestion.
\<close>

theorem C6_tahoe_never_fast_recovery:
  assumes "\<forall>h \<in> set hs. congestion_algorithm (fst h) = ''tahoe''"
  shows "phase (hop_entries (Packet src dst pth pid rid) hs) \<noteq> ''fast_recovery''"
proof (rule hop_entries_tahoe_phase)
  show "\<forall>h \<in> set hs. congestion_algorithm (fst h) \<noteq> ''reno''" using assms by auto
  show "phase (Packet src dst pth pid rid) \<noteq> ''fast_recovery''" by (simp add: Packet_def)
qed

theorem C6_tahoe_never_fast_recovery_witness:
  "list_all (\<lambda>h. congestion_algorithm (fst h) = ''tahoe'')
      [(one_node ''tahoe'' 8, 0::nat), (one_node ''tahoe'' 8, 0), (one_node ''tahoe'' 8, 0),
       (one_node ''tahoe'' 6, 0)]
   \<and> phase (hop_entries example_packet
       [(one_node ''tahoe'' 8, 0), (one_node ''tahoe'' 8, 0), (one_node ''tahoe'' 8, 0),
        (one_node ''tahoe'' 6, 0)]) \<noteq> ''fast_recovery''"
proof -
  let ?hs = "[(one_node ''tahoe'' 8, 0::nat), (one_node ''tahoe'' 8, 0), (one_node ''tahoe'' 8, 0),
                (one_node ''tahoe'' 6, 0)]"
  have a: "\<forall>h \<in> set ?hs. congestion_algorithm (fst h) = ''tahoe''" by (simp add: example_defs)
  show ?thesis using C6_tahoe_never_fast_recovery[OF a, of 0 1 "[0, 1]" 1 0] a
    unfolding example_packet_def list_all_iff by blast
qed

text \<open>
  C8. At a hop entry with node congestion above 7 where the incremented duplicate counter
  stays below 3, the claim that nothing but the counter changes fails for the round-trip
  estimate: the handler recomputes it first, in every case. A fresh flow (rtt 0) entering
  a node of latency 10 and congestion 8 leaves with rtt 50.
\<close>

theorem C8_rtt_counterexample:
  "7 < congestion (one_node ''reno'' 8) 0 \<and> dup_ack_count example_packet + 1 < 3
   \<and> rtt example_packet = 0
   \<and> rtt (snd (handle_congestion_control (one_node ''reno'' 8) example_packet 0)) = 50"
  by (simp add: example_defs hcc_defs)

text \<open>
  C8, as the code has it. At a hop entry with node congestion above 7 and not above 9
  where the incremented duplicate counter stays below 3, the flow changes in its
  duplicate counter and its rtt (set to the node's latency plus 5 per unit of congestion)
  and in nothing else, and the simulator (event log included) does not change.
\<close>

theorem C8_frame_amended:
  assumes "7 < congestion s n" "congestion s n \<le> 9" "dup_ack_count p + 1 < 3"
  shows "handle_congestion_control s p n =
           (s, p\<lparr>rtt := real_of_int (latency s n) + congestion s n * 5,
                 dup_ack_count := dup_ack_count p + 1\<rparr>)"
  using assms by (rule hcc_dup_only)

theorem C8_frame_amended_witness:
  "7 < congestion (one_node ''tahoe'' 8) 0 \<and> congestion (one_node ''tahoe'' 8) 0 \<le> 9
   \<and> dup_ack_count example_packet + 1 < 3
   \<and> handle_congestion_control (one_node ''tahoe'' 8) example_packet 0 =
       (one_node ''tahoe'' 8, example_packet\<lparr>rtt := 50, dup_ack_count := 1\<rparr>)"
proof -
  have a: "7 < congestion (one_node ''tahoe'' 8) 0" "congestion (one_node ''tahoe'' 8) 0 \<le> 9"
    "dup_ack_count example_packet + 1 < 3" by (simp_all add: example_defs)
  have l: "real_of_int (latency (one_node ''tahoe'' 8) 0) + congestion (one_node ''tahoe'' 8) 0 * 5 = 50"
    by (simp add: example_defs)
  have d: "dup_ack_count example_packet + 1 = 1" by (simp add: example_defs)
  show ?thesis using C8_frame_amended[OF a] a unfolding l d by simp
qed

section \<open>Properties of the path finder\<close>

lemma min_from_source:
  assumes "src \<in> set (x # xs)"
  shows "min_from ((\<lambda>node. Infinity)(src := Finite 0)) x xs = src"
proof (rule ccontr)
  let ?d = "(\<lambda>node. Infinity)(src := Finite 0)"
  assume ne: "min_from ?d x xs \<noteq> src"
  have "\<not> dist_less (?d src) (?d (min_from ?d x xs))" using assms by (rule min_from_least)
  then show False using ne by simp
qed

text \<open>
  C10. For every node \<open>src\<close> of the topology the path finder, asked for the path from
  \<open>src\<close> to \<open>src\<close>, returns the one-node path \<open>[src]\<close> with cost 0: it accepts equal
  endpoints (it is \<open>send_manual_packet\<close> that rejects them, by name).
\<close>

theorem C10_same_endpoints:
  assumes "src \<in> set (nodes s)" "set ord = set (nodes s)"
  shows "dijkstra_shortest_path s ord src src = Some (Some [src], Finite 0)"
proof -
  from assms obtain x xs where ord: "ord = x # xs" by (cases ord) auto
  have cur: "min_from ((\<lambda>node. Infinity)(src := Finite 0)) x xs = src"
    using assms ord by (simp add: min_from_source)
  have rec: "reconstruct (\<lambda>node. None) (Some src) [] = Some [src]"
    by (simp add: reconstruct.simps)
  show ?thesis
    unfolding dijkstra_shortest_path_def
    by (subst dijkstra_loop.simps) (simp add: ord cur rec Let_def)
qed

theorem C10_same_endpoints_witness:
  "1 \<in> set (nodes (linear_abc init_simulator 5))
   \<and> set [2, 0, 1] = set (nodes (linear_abc init_simulator 5))
   \<and> dijkstra_shortest_path (linear_abc init_simulator 5) [2, 0, 1] 1 1 = Some (Some [1], Finite 0)"
proof -
  have a: "1 \<in> set (nodes (linear_abc init_simulator 5))" by (simp add: linear_abc_def)
  have b: "set [2, 0, 1] = set (nodes (linear_abc init_simulator 5))"
    by (auto simp: linear_abc_def)
  show ?thesis using C10_same_endpoints[OF a b] a b by simp
qed

lemmas dijkstra_eval = dijkstra_shortest_path_def dijkstra_loop.simps relax_def reconstruct.simps
  Let_def

lemma linear_abc_eval:
  "dijkstra_shortest_path (linear_abc s0 lc) [0, 1, 2] 0 2 = Some (Some [0, 1, 2], Finite 30)"
  "dijkstra_shortest_path (linear_abc s0 lc) [0, 2, 1] 0 2 = Some (Some [0, 1, 2], Finite 30)"
  "dijkstra_shortest_path (linear_abc s0 lc) [1, 0, 2] 0 2 = Some (Some [0, 1, 2], Finite 30)"
  "dijkstra_shortest_path (linear_abc s0 lc) [1, 2, 0] 0 2 = Some (Some [0, 1, 2], Finite 30)"
  "dijkstra_shortest_path (linear_abc s0 lc) [2, 0, 1] 0 2 = Some (Some [0, 1, 2], Finite 30)"
  "dijkstra_shortest_path (linear_abc s0 lc) [2, 1, 0] 0 2 = Some (Some [0, 1, 2], Finite 30)"
  by (simp_all add: dijkstra_eval linear_abc_def)

lemma set_tail_of_distinct: "distinct (x # xs) \<Longrightarrow> set xs = set (x # xs) - {x}"
  by auto

lemma head_tail_in:
  assumes "distinct xs" "set xs = S" "xs = y # ys"
  shows "y \<in> S \<and> distinct ys \<and> set ys = S - {y}"
proof -
  have d: "distinct (y # ys)" using assms(1,3) by simp
  have "y \<in> set xs" using assms(3) by simp
  then have 1: "y \<in> S" by (simp only: assms(2))
  have 2: "distinct ys" using d by simp
  have "set ys = set (y # ys) - {y}" using d by (rule set_tail_of_distinct)
  then have 3: "set ys = S - {y}" by (simp only: assms(2)[symmetric] assms(3))
  show ?thesis using 1 2 3 by blast
qed

lemma perm_of_one:
  assumes "distinct xs" "set xs = {a}"
  shows "xs = [a]"
proof (cases xs)
  case Nil
  then show ?thesis using assms(2) by simp
next
  case (Cons y ys)
  from head_tail_in[OF assms Cons] have y: "y = a" and t: "set ys = {a} - {y}" by simp_all
  have "ys = []" using t y by simp
  then show ?thesis using Cons y by simp
qed

lemma perm_of_two:
  assumes "distinct xs" "set xs = {a, b}" "a \<noteq> b"
  shows "xs = [a, b] \<or> xs = [b, a]"
proof (cases xs)
  case Nil
  then show ?thesis using assms(2) by simp
next
  case (Cons y ys)
  from head_tail_in[OF assms(1,2) Cons]
  have y: "y = a \<or> y = b" and dys: "distinct ys" and t: "set ys = {a, b} - {y}" by simp_all
  from y show ?thesis
  proof
    assume ya: "y = a"
    have "{a, b} - {a} = {b}" using assms(3) by auto
    then have "set ys = {b}" using t ya by simp
    from perm_of_one[OF dys this] show ?thesis using Cons ya by simp
  next
    assume yb: "y = b"
    have "{a, b} - {b} = {a}" using assms(3) by auto
    then have "set ys = {a}" using t yb by simp
    from perm_of_one[OF dys this] show ?thesis using Cons yb by simp
  qed
qed

lemma perms_of_three:
  assumes "distinct ord" "set ord = {0, 1, 2::nat}"
  shows "ord = [0, 1, 2] \<or> ord = [0, 2, 1] \<or> ord = [1, 0, 2] \<or> ord = [1, 2, 0]
       \<or> ord = [2, 0, 1] \<or> ord = [2, 1, 0]"
proof (cases ord)
  case Nil
  then show ?thesis using assms(2) by simp
next
  case (Cons y ys)
  from head_tail_in[OF assms Cons]
  have y: "y = 0 \<or> y = 1 \<or> y = 2" and dys: "distinct ys" and t: "set ys = {0, 1, 2} - {y}"
    by simp_all
  from y consider "y = 0" | "y = 1" | "y = 2" by blast
  then show ?thesis
  proof cases
    case 1
    have "{0, 1, 2::nat} - {0} = {1, 2}" by auto
    then have "set ys = {1, 2}" using t 1 by simp
    from perm_of_two[OF dys this] show ?thesis using Cons 1 by auto
  next
    case 2
    have "{0, 1, 2::nat} - {1} = {0, 2}" by auto
    then have "set ys = {0, 2}" using t 2 by simp
    from perm_of_two[OF dys this] show ?thesis using Cons 2 by auto
  next
    case 3
    have "{0, 1, 2::nat} - {2} = {0, 1}" by auto
    then have "set ys = {0, 1}" using t 3 by simp
    from perm_of_two[OF dys this] show ?thesis using Cons 3 by auto
  qed
qed


lemma reachable_src_in_nodes: "reachable s src v \<Longrightarrow> src \<in> set (nodes s)"
  by (induction rule: reachable.induct) simp_all

lemma dijkstra_reachable:
  assumes "distinct ord" "set ord = set (nodes s)" "reachable s src dst"
  shows "\<exists>pth. dijkstra_shortest_path s ord src dst = Some (Some pth, Finite (path_cost s pth))
            \<and> pth \<noteq> [] \<and> hd pth = src \<and> last pth = dst \<and> is_path s pth"
proof -
  have "src \<in> set (nodes s)" using assms(3) by (rule reachable_src_in_nodes)
  from dijkstra_shortest_path_result[OF assms(1,2) this, of dst] assms(3)
  show ?thesis by (auto simp: good_result_def)
qed

lemma dijkstra_unreachable:
  assumes "distinct ord" "set ord = set (nodes s)" "src \<in> set (nodes s)" "\<not> reachable s src dst"
  shows "dijkstra_shortest_path s ord src dst = Some (None, Infinity)"
  using dijkstra_shortest_path_result[OF assms(1,2,3), of dst] assms(4)
  by (auto simp: good_result_def)

text \<open>
  C1. Whenever \<open>dst\<close> can be reached from \<open>src\<close> along connections inside the node list,
  the path finder returns a path that starts at \<open>src\<close>, ends at \<open>dst\<close>, follows
  connections of the topology, and whose returned cost is the sum of the latencies of its
  nodes except the last (\<open>path_cost\<close>): leaving a node costs that node's latency. This
  holds for every iteration order \<open>ord\<close> of the set of unvisited nodes. On the linear
  topology A - B - C with latencies 10 and 20 at A and B the result from A to C is the
  path A, B, C with cost 30, whatever the order and whatever the latency of C.
\<close>

theorem C1_dijkstra_path_cost:
  "(distinct ord \<and> set ord = set (nodes s) \<and> reachable s src dst \<longrightarrow>
      (\<exists>pth. dijkstra_shortest_path s ord src dst = Some (Some pth, Finite (path_cost s pth))
            \<and> hd pth = src \<and> last pth = dst \<and> is_path s pth))
   \<and> (distinct ord3 \<and> set ord3 = {0, 1, 2} \<longrightarrow>
      dijkstra_shortest_path (linear_abc s0 lc) ord3 0 2 = Some (Some [0, 1, 2], Finite 30))"
proof (intro conjI impI)
  assume "distinct ord \<and> set ord = set (nodes s) \<and> reachable s src dst"
  then have "distinct ord" "set ord = set (nodes s)" "reachable s src dst" by simp_all
  from dijkstra_reachable[OF this]
  show "\<exists>pth. dijkstra_shortest_path s ord src dst = Some (Some pth, Finite (path_cost s pth))
            \<and> hd pth = src \<and> last pth = dst \<and> is_path s pth" by blast
next
  assume "distinct ord3 \<and> set ord3 = {0, 1, 2}"
  then have "distinct ord3" "set ord3 = {0, 1, 2}" by simp_all
  from perms_of_three[OF this]
  show "dijkstra_shortest_path (linear_abc s0 lc) ord3 0 2 = Some (Some [0, 1, 2], Finite 30)"
    using linear_abc_eval[of s0 lc] by blast
qed

lemma linear_abc_reachable: "reachable (linear_abc s0 lc) 0 2"
proof -
  let ?L = "linear_abc s0 lc"
  have "reachable ?L 0 0" by (rule reach_refl) (simp add: linear_abc_def)
  then have "reachable ?L 0 1" by (rule reach_step) (simp_all add: linear_abc_def)
  then show "reachable ?L 0 2" by (rule reach_step) (simp_all add: linear_abc_def)
qed

theorem C1_dijkstra_path_cost_witness:
  "distinct [0, 1, 2::nat] \<and> set [0, 1, 2] = set (nodes (linear_abc init_simulator 5))
   \<and> reachable (linear_abc init_simulator 5) 0 2
   \<and> (\<exists>pth. dijkstra_shortest_path (linear_abc init_simulator 5) [0, 1, 2] 0 2
               = Some (Some pth, Finite (path_cost (linear_abc init_simulator 5) pth))
            \<and> hd pth = 0 \<and> last pth = 2 \<and> is_path (linear_abc init_simulator 5) pth)
   \<and> distinct [2, 1, 0::nat] \<and> set [2, 1, 0::nat] = {0, 1, 2}
   \<and> dijkstra_shortest_path (linear_abc init_simulator 5) [2, 1, 0] 0 2
        = Some (Some [0, 1, 2], Finite 30)"
proof -
  have a: "distinct [0, 1, 2::nat] \<and> set [0, 1, 2] = set (nodes (linear_abc init_simulator 5))
     \<and> reachable (linear_abc init_simulator 5) 0 2"
    using linear_abc_reachable[of init_simulator 5] by (simp add: linear_abc_def)
  have b: "distinct [2, 1, 0::nat] \<and> set [2, 1, 0::nat] = {0, 1, 2}" by auto
  show ?thesis
    using C1_dijkstra_path_cost[of "[0, 1, 2]" "linear_abc init_simulator 5" 0 2 "[2, 1, 0]"
        init_simulator 5] a b by blast
qed

section \<open>Properties of the event recorder\<close>

lemma append_event_fifo:
  "\<exists>ev. packet_events (append_event s p et) =
          drop (length (packet_events s) + 1 - 500) (packet_events s @ [ev])"
  by (auto simp: append_event_def Let_def)

lemma append_event_cap:
  "length (packet_events (append_event s p et)) \<le> 500"
  by (simp add: append_event_def Let_def)

lemma record_packet_event_cap:
  "length (packet_events s) \<le> 500 \<Longrightarrow>
   length (packet_events (record_packet_event s p et)) \<le> 500"
  using append_event_cap by (simp add: record_packet_event_def Let_def)

text \<open>
  C7. The log is cut to its last 500 entries by \<open>record_packet_event\<close> only
  (\<open>append_event_cap\<close>, \<open>append_event_fifo\<close>); \<open>record_packet_event_dropped\<close> appends and
  does not cut. With 500 entries in the log, recording a dropped packet leaves 501, and so
  does a random flow that loss injection drops in \<open>spawn_packet\<close>.
\<close>

theorem C7_dropped_event_exceeds_cap:
  "length (packet_events full_log_abc) = 500
   \<and> length (packet_events (record_packet_event_dropped full_log_abc 1)) = 501
   \<and> (\<exists>s'. spawn_packet full_log_abc [0, 1, 2] 0 2 False = Some (s', False, [])
           \<and> length (packet_events s') = 501)"
proof -
  have a: "length (packet_events full_log_abc) = 500"
    by (simp add: full_log_abc_def linear_abc_def init_simulator_def)
  have b: "length (packet_events (record_packet_event_dropped full_log_abc 1)) = 501"
    using a by (simp add: record_packet_event_dropped_def)
  have d: "dijkstra_shortest_path full_log_abc [0, 1, 2] 0 2 = Some (Some [0, 1, 2], Finite 30)"
    unfolding full_log_abc_def by (rule linear_abc_eval(1))
  have r: "random_source full_log_abc (random_pos full_log_abc) = 0"
    "packet_loss_rate full_log_abc = 10"
    by (simp_all add: full_log_abc_def linear_abc_def init_simulator_def)
  have "spawn_packet full_log_abc [0, 1, 2] 0 2 False =
          Some ((record_packet_event_dropped
                   (full_log_abc\<lparr>random_pos := random_pos full_log_abc + 1\<rparr>)
                   (packet_counter full_log_abc + 1))
                  \<lparr>packet_counter := packet_counter full_log_abc + 1\<rparr>, False, [])"
    using d r by (simp add: spawn_packet_def Let_def)
  then show ?thesis using a b by (simp add: record_packet_event_dropped_def)
qed

section \<open>Properties of the manual send\<close>

lemma foldl_congestion_frame:
  "packets (foldl (\<lambda>t node. t\<lparr>congestion := F t node\<rparr>) s pth) = packets s
   \<and> packet_counter (foldl (\<lambda>t node. t\<lparr>congestion := F t node\<rparr>) s pth) = packet_counter s
   \<and> random_pos (foldl (\<lambda>t node. t\<lparr>congestion := F t node\<rparr>) s pth) = random_pos s
   \<and> packet_events (foldl (\<lambda>t node. t\<lparr>congestion := F t node\<rparr>) s pth) = packet_events s"
  by (induction pth arbitrary: s) simp_all

lemma append_event_frame:
  "packets (append_event s p et) = packets s
   \<and> packet_counter (append_event s p et) = packet_counter s
   \<and> random_pos (append_event s p et) = random_pos s
   \<and> traffic_load (append_event s p et) = traffic_load s"
  by (simp add: append_event_def Let_def)

lemma admit_packet_manual:
  "packets (admit_packet s a b pth c nid True) = packets s @ [(Packet a b pth nid 0)\<lparr>total_latency := c\<rparr>]
   \<and> packet_counter (admit_packet s a b pth c nid True) = nid
   \<and> random_pos (admit_packet s a b pth c nid True) = random_pos s"
  unfolding admit_packet_def Let_def
  by (simp add: foldl_congestion_frame record_packet_event_def important_events_def
        append_event_frame)

lemma spawn_packet_manual_unreachable:
  assumes "distinct ord" "set ord = set (nodes s)" "a \<in> set (nodes s)" "\<not> reachable s a b"
  shows "spawn_packet s ord a b True = Some (s, False, [''No Path''])"
  using dijkstra_unreachable[OF assms] by (simp add: spawn_packet_def)

lemma spawn_packet_manual_reachable:
  assumes "distinct ord" "set ord = set (nodes s)" "reachable s a b"
  shows "\<exists>pth. pth \<noteq> [] \<and> hd pth = a \<and> last pth = b \<and> is_path s pth \<and>
           spawn_packet s ord a b True =
             Some (admit_packet s a b pth (Finite (path_cost s pth)) (packet_counter s + 1) True,
                   True, [])"
proof -
  from dijkstra_reachable[OF assms] obtain pth
    where "dijkstra_shortest_path s ord a b = Some (Some pth, Finite (path_cost s pth))"
      and "pth \<noteq> []" "hd pth = a" "last pth = b" "is_path s pth" by blast
  then show ?thesis by (auto simp: spawn_packet_def Let_def)
qed

lemma find_in_nodes: "find P xs = Some a \<Longrightarrow> a \<in> set xs"
  by (auto simp: find_Some_iff)

lemma send_manual_rejects_selection:
  assumes "source_name = [] \<or> dest_name = [] \<or> source_name = dest_name
           \<or> find (\<lambda>n. node_name s n = source_name) (nodes s) = None
           \<or> find (\<lambda>n. node_name s n = dest_name) (nodes s) = None"
  shows "\<exists>dlg. send_manual_packet s ord source_name dest_name = Some (s, dlg) \<and> dlg \<noteq> []"
  using assms by (auto simp: send_manual_packet_def split: option.splits)

lemma reachable_same_topology_imp:
  "reachable s a b \<Longrightarrow> nodes s' = nodes s \<Longrightarrow> connections s' = connections s \<Longrightarrow>
   reachable s' a b"
proof (induction rule: reachable.induct)
  case reach_refl
  then show ?case by (simp add: reachable.reach_refl)
next
  case (reach_step u v)
  then show ?case by (auto intro: reachable.reach_step)
qed

lemma reachable_same_topology:
  "nodes s' = nodes s \<Longrightarrow> connections s' = connections s \<Longrightarrow>
   reachable s' a b = reachable s a b"
  using reachable_same_topology_imp[of s a b s'] reachable_same_topology_imp[of s' a b s]
  by auto

lemma is_path_same_topology:
  "nodes s' = nodes s \<Longrightarrow> connections s' = connections s \<Longrightarrow> is_path s' p = is_path s p"
  by (induction s p rule: is_path.induct) simp_all

lemma send_manual_no_path_state:
  assumes "distinct ord" "set ord = set (nodes s)"
    and "2 \<le> length (nodes s)" "source_name \<noteq> []" "dest_name \<noteq> []" "source_name \<noteq> dest_name"
    and "endpoints_found s source_name dest_name a b" and "\<not> reachable s a b"
  shows "send_manual_packet s ord source_name dest_name =
           Some ((if simulation_running s then s\<lparr>simulation_running := False\<rparr> else s)
                   \<lparr>manual_packet_mode := False\<rparr>, [''No Path''])"
proof -
  let ?s1 = "if simulation_running s then s\<lparr>simulation_running := False\<rparr> else s"
  let ?s2 = "?s1\<lparr>manual_packet_mode := True\<rparr>"
  have fa: "find (\<lambda>n. node_name s n = source_name) (nodes s) = Some a"
    and fb: "find (\<lambda>n. node_name s n = dest_name) (nodes s) = Some b"
    using assms(7) by (simp_all add: endpoints_found_def)
  have o2: "set ord = set (nodes ?s2)" using assms(2) by simp
  have an: "a \<in> set (nodes ?s2)" using find_in_nodes[OF fa] by simp
  have "reachable ?s2 a b = reachable s a b" by (rule reachable_same_topology) simp_all
  then have nr: "\<not> reachable ?s2 a b" using assms(8) by simp
  have sp: "spawn_packet ?s2 ord a b True = Some (?s2, False, [''No Path''])"
    by (rule spawn_packet_manual_unreachable[OF assms(1) o2 an nr])
  show ?thesis
    using assms(3-6) fa fb sp by (simp add: send_manual_packet_def Let_def)
qed

lemma send_manual_no_path:
  assumes "distinct ord" "set ord = set (nodes s)"
    and "endpoints_found s source_name dest_name a b" and "\<not> reachable s a b"
  shows "\<exists>s' dlg. send_manual_packet s ord source_name dest_name = Some (s', dlg) \<and> dlg \<noteq> []
          \<and> packets s' = packets s \<and> packet_counter s' = packet_counter s
          \<and> congestion s' = congestion s \<and> packet_events s' = packet_events s"
proof (cases "length (nodes s) < 2 \<or> source_name = [] \<or> dest_name = [] \<or> source_name = dest_name")
  case True
  then show ?thesis by (auto simp: send_manual_packet_def)
next
  case False
  then have "2 \<le> length (nodes s)" "source_name \<noteq> []" "dest_name \<noteq> []"
    "source_name \<noteq> dest_name" by simp_all
  from send_manual_no_path_state[OF assms(1,2) this assms(3,4)] show ?thesis by simp
qed

lemma send_manual_success:
  assumes "distinct ord" "set ord = set (nodes s)"
    and "2 \<le> length (nodes s)" "source_name \<noteq> []" "dest_name \<noteq> []" "source_name \<noteq> dest_name"
    and "endpoints_found s source_name dest_name a b" and "reachable s a b"
  shows "\<exists>s' pth. send_manual_packet s ord source_name dest_name = Some (s', [])
          \<and> hd pth = a \<and> last pth = b \<and> is_path s pth
          \<and> packets s' = packets s @
               [(Packet a b pth (packet_counter s + 1) 0)\<lparr>total_latency := Finite (path_cost s pth)\<rparr>]
          \<and> packet_counter s' = packet_counter s + 1
          \<and> random_pos s' = random_pos s"
proof -
  let ?s1 = "if simulation_running s then s\<lparr>simulation_running := False\<rparr> else s"
  let ?s2 = "?s1\<lparr>manual_packet_mode := True\<rparr>"
  have fa: "find (\<lambda>n. node_name s n = source_name) (nodes s) = Some a"
    and fb: "find (\<lambda>n. node_name s n = dest_name) (nodes s) = Some b"
    using assms(7) by (simp_all add: endpoints_found_def)
  have o2: "set ord = set (nodes ?s2)" using assms(2) by simp
  have "reachable ?s2 a b = reachable s a b" by (rule reachable_same_topology) simp_all
  then have r: "reachable ?s2 a b" using assms(8) by simp
  from spawn_packet_manual_reachable[OF assms(1) o2 r] obtain pth
    where pth: "hd pth = a" "last pth = b" "is_path ?s2 pth"
      and sp: "spawn_packet ?s2 ord a b True =
             Some (admit_packet ?s2 a b pth (Finite (path_cost ?s2 pth)) (packet_counter ?s2 + 1) True,
                   True, [])" by blast
  let ?s3 = "admit_packet ?s2 a b pth (Finite (path_cost ?s2 pth)) (packet_counter ?s2 + 1) True"
  have pc: "path_cost ?s2 pth = path_cost s pth" by (simp add: path_cost_def)
  have "is_path ?s2 pth = is_path s pth" by (rule is_path_same_topology) simp_all
  then have ip: "is_path s pth" using pth(3) by simp
  have f3: "packets ?s3 = packets s @
               [(Packet a b pth (packet_counter s + 1) 0)\<lparr>total_latency := Finite (path_cost s pth)\<rparr>]"
    "packet_counter ?s3 = packet_counter s + 1" "random_pos ?s3 = random_pos s"
    using admit_packet_manual[of ?s2 a b pth "Finite (path_cost ?s2 pth)" "packet_counter ?s2 + 1"]
    by (simp_all add: pc)
  have ne: "packets ?s3 \<noteq> []" using f3(1) by simp
  have "send_manual_packet s ord source_name dest_name =
          Some (?s3\<lparr>active_manual_packet_ids :=
                    insert (packet_id (last (packets ?s3))) (active_manual_packet_ids ?s3)\<rparr>, [])"
    using assms(3-6) fa fb sp ne by (simp add: send_manual_packet_def Let_def)
  then show ?thesis using pth(1,2) ip f3 by auto
qed

lemma islands_unreachable_aux: "reachable islands_abc 0 v \<Longrightarrow> v = 0"
  by (induction rule: reachable.induct) (simp_all add: islands_abc_def)

lemma islands_unreachable: "\<not> reachable islands_abc 0 2"
  using islands_unreachable_aux[of 2] by auto

lemma two_members_length:
  assumes "a \<in> set xs" "b \<in> set xs" "a \<noteq> b"
  shows "2 \<le> length xs"
proof (cases xs)
  case Nil
  then show ?thesis using assms(1) by simp
next
  case (Cons x ys)
  then have "ys \<noteq> []" using assms by auto
  then show ?thesis using Cons by (cases ys) simp_all
qed

lemma no_path_endpoints_differ:
  assumes "endpoints_found s source_name dest_name a b" "\<not> reachable s a b"
  shows "source_name \<noteq> dest_name \<and> 2 \<le> length (nodes s)"
proof -
  have fa: "find (\<lambda>n. node_name s n = source_name) (nodes s) = Some a"
    and fb: "find (\<lambda>n. node_name s n = dest_name) (nodes s) = Some b"
    using assms(1) by (simp_all add: endpoints_found_def)
  have an: "a \<in> set (nodes s)" and bn: "b \<in> set (nodes s)"
    using find_in_nodes[OF fa] find_in_nodes[OF fb] by simp_all
  have ab: "a \<noteq> b" using assms(2) reach_refl[OF an] by auto
  have "source_name \<noteq> dest_name" using fa fb ab by auto
  then show ?thesis using two_members_length[OF an bn ab] by simp
qed

lemma running_islands_unreachable: "\<not> reachable running_islands_abc 0 2"
proof -
  have "reachable running_islands_abc 0 2 = reachable islands_abc 0 2"
    by (rule reachable_same_topology) (simp_all add: running_islands_abc_def)
  then show ?thesis using islands_unreachable by simp
qed

lemma running_islands_abc_facts:
  "distinct [0, 1, 2::nat]" "set [0, 1, 2] = set (nodes running_islands_abc)"
  "2 \<le> length (nodes running_islands_abc)"
  "''A'' \<noteq> []" "''C'' \<noteq> []" "''A'' \<noteq> ''C''"
  "endpoints_found running_islands_abc ''A'' ''C'' 0 2"
  "simulation_running running_islands_abc"
  by (simp_all add: running_islands_abc_def islands_abc_def linear_abc_def init_simulator_def
        endpoints_found_def)

lemma lossy_abc_facts:
  "distinct [0, 1, 2::nat]" "set [0, 1, 2] = set (nodes lossy_abc)"
  "2 \<le> length (nodes lossy_abc)"
  "endpoints_found lossy_abc ''A'' ''C'' 0 2"
  "reachable lossy_abc 0 2"
  "find (\<lambda>n. node_name lossy_abc n = ''Z'') (nodes lossy_abc) = None"
  "packets lossy_abc = []" "packet_counter lossy_abc = 0" "random_pos lossy_abc = 0"
  using linear_abc_reachable[of "init_simulator\<lparr>packet_loss_rate := 10\<rparr>" 5]
  by (simp_all add: lossy_abc_def linear_abc_def init_simulator_def endpoints_found_def)

text \<open>
  C9. The claim that a failed manual send leaves no partial side effect does not hold
  when the failure is a missing path. \<open>send_manual_packet\<close> pauses the automatic
  simulation before it asks for a path, and the failure branch only leaves manual mode:
  on the unconnected nodes A, B, C with the simulation running, sending from A to C is
  rejected with the message box \<open>No Path\<close> and the simulation is no longer running.
\<close>

theorem C9_pause_counterexample:
  "simulation_running running_islands_abc
   \<and> endpoints_found running_islands_abc ''A'' ''C'' 0 2
   \<and> \<not> reachable running_islands_abc 0 2
   \<and> send_manual_packet running_islands_abc [0, 1, 2] ''A'' ''C'' =
        Some (running_islands_abc\<lparr>simulation_running := False, manual_packet_mode := False\<rparr>,
              [''No Path''])
   \<and> \<not> simulation_running
          (running_islands_abc\<lparr>simulation_running := False, manual_packet_mode := False\<rparr>)"
proof -
  note R = running_islands_abc_facts
  have "send_manual_packet running_islands_abc [0, 1, 2] ''A'' ''C'' =
        Some (running_islands_abc\<lparr>simulation_running := False, manual_packet_mode := False\<rparr>,
              [''No Path''])"
    using send_manual_no_path_state[OF R(1,2,3,4,5,6,7) running_islands_unreachable] R(8)
    by simp
  then show ?thesis using R(7,8) running_islands_unreachable by simp
qed

text \<open>
  C9, as the code has it. A manual send draws no random number and is never dropped by
  loss injection: when both names select nodes and the destination can be reached, the
  flow is added to the active set with the next packet id, whatever the loss rate. When
  a name is empty, the two names are equal, or a name selects no node, the send is
  rejected with a message box and the simulator is unchanged as a whole. When both names
  select nodes and the destination cannot be reached, the send is rejected with the
  message box \<open>No Path\<close>; the simulator is then the one before the send with the automatic
  simulation paused and manual mode off, and nothing else differs: no packet is added,
  the packet counter does not move, no congestion accumulator changes and no event is
  recorded.
\<close>

theorem C9_manual_send_amended:
  assumes "distinct ord" "set ord = set (nodes s)"
  shows "(2 \<le> length (nodes s) \<and> source_name \<noteq> [] \<and> dest_name \<noteq> [] \<and> source_name \<noteq> dest_name
          \<and> endpoints_found s source_name dest_name a b \<and> reachable s a b \<longrightarrow>
            (\<exists>s' pth. send_manual_packet s ord source_name dest_name = Some (s', [])
               \<and> hd pth = a \<and> last pth = b \<and> is_path s pth
               \<and> packets s' = packets s @
                   [(Packet a b pth (packet_counter s + 1) 0)
                      \<lparr>total_latency := Finite (path_cost s pth)\<rparr>]
               \<and> packet_counter s' = packet_counter s + 1
               \<and> random_pos s' = random_pos s))
       \<and> (source_name = [] \<or> dest_name = [] \<or> source_name = dest_name
          \<or> find (\<lambda>n. node_name s n = source_name) (nodes s) = None
          \<or> find (\<lambda>n. node_name s n = dest_name) (nodes s) = None \<longrightarrow>
            (\<exists>dlg. send_manual_packet s ord source_name dest_name = Some (s, dlg) \<and> dlg \<noteq> []))
       \<and> (source_name \<noteq> [] \<and> dest_name \<noteq> []
          \<and> endpoints_found s source_name dest_name a b \<and> \<not> reachable s a b \<longrightarrow>
            send_manual_packet s ord source_name dest_name =
              Some ((if simulation_running s then s\<lparr>simulation_running := False\<rparr> else s)
                      \<lparr>manual_packet_mode := False\<rparr>, [''No Path''])
            \<and> packets ((if simulation_running s then s\<lparr>simulation_running := False\<rparr> else s)
                         \<lparr>manual_packet_mode := False\<rparr>) = packets s
            \<and> packet_counter ((if simulation_running s then s\<lparr>simulation_running := False\<rparr> else s)
                         \<lparr>manual_packet_mode := False\<rparr>) = packet_counter s
            \<and> congestion ((if simulation_running s then s\<lparr>simulation_running := False\<rparr> else s)
                         \<lparr>manual_packet_mode := False\<rparr>) = congestion s
            \<and> packet_events ((if simulation_running s then s\<lparr>simulation_running := False\<rparr> else s)
                         \<lparr>manual_packet_mode := False\<rparr>) = packet_events s)"
proof (intro conjI impI)
  assume "2 \<le> length (nodes s) \<and> source_name \<noteq> [] \<and> dest_name \<noteq> [] \<and> source_name \<noteq> dest_name
          \<and> endpoints_found s source_name dest_name a b \<and> reachable s a b"
  then have h: "2 \<le> length (nodes s)" "source_name \<noteq> []" "dest_name \<noteq> []"
    "source_name \<noteq> dest_name" "endpoints_found s source_name dest_name a b" "reachable s a b"
    by simp_all
  show "\<exists>s' pth. send_manual_packet s ord source_name dest_name = Some (s', [])
               \<and> hd pth = a \<and> last pth = b \<and> is_path s pth
               \<and> packets s' = packets s @
                   [(Packet a b pth (packet_counter s + 1) 0)
                      \<lparr>total_latency := Finite (path_cost s pth)\<rparr>]
               \<and> packet_counter s' = packet_counter s + 1
               \<and> random_pos s' = random_pos s"
    by (rule send_manual_success[OF assms h])
next
  assume "source_name = [] \<or> dest_name = [] \<or> source_name = dest_name
          \<or> find (\<lambda>n. node_name s n = source_name) (nodes s) = None
          \<or> find (\<lambda>n. node_name s n = dest_name) (nodes s) = None"
  then show "\<exists>dlg. send_manual_packet s ord source_name dest_name = Some (s, dlg) \<and> dlg \<noteq> []"
    by (rule send_manual_rejects_selection)
next
  assume n: "source_name \<noteq> [] \<and> dest_name \<noteq> []
          \<and> endpoints_found s source_name dest_name a b \<and> \<not> reachable s a b"
  then have e: "endpoints_found s source_name dest_name a b" and u: "\<not> reachable s a b"
    and ne: "source_name \<noteq> []" "dest_name \<noteq> []" by simp_all
  from no_path_endpoints_differ[OF e u]
  have d: "2 \<le> length (nodes s)" "source_name \<noteq> dest_name" by simp_all
  show "send_manual_packet s ord source_name dest_name =
              Some ((if simulation_running s then s\<lparr>simulation_running := False\<rparr> else s)
                      \<lparr>manual_packet_mode := False\<rparr>, [''No Path''])"
    by (rule send_manual_no_path_state[OF assms d(1) ne d(2) e u])
qed simp_all

theorem C9_manual_send_amended_witness:
  "(\<exists>s' (pth::nat list). send_manual_packet lossy_abc [0, 1, 2] ''A'' ''C'' = Some (s', [])
       \<and> hd pth = 0 \<and> last pth = 2 \<and> length (packets s') = 1 \<and> packet_counter s' = 1
       \<and> random_pos s' = 0)
   \<and> (\<exists>dlg. send_manual_packet lossy_abc [0, 1, 2] ''A'' ''A'' = Some (lossy_abc, dlg) \<and> dlg \<noteq> [])
   \<and> (\<exists>dlg. send_manual_packet lossy_abc [0, 1, 2] ''A'' ''Z'' = Some (lossy_abc, dlg) \<and> dlg \<noteq> [])
   \<and> simulation_running running_islands_abc
   \<and> send_manual_packet running_islands_abc [0, 1, 2] ''A'' ''C'' =
        Some (running_islands_abc\<lparr>simulation_running := False, manual_packet_mode := False\<rparr>,
              [''No Path''])
   \<and> packets (running_islands_abc\<lparr>simulation_running := False, manual_packet_mode := False\<rparr>)
        = packets running_islands_abc
   \<and> packet_events (running_islands_abc\<lparr>simulation_running := False, manual_packet_mode := False\<rparr>)
        = packet_events running_islands_abc"
proof -
  note L = lossy_abc_facts and R = running_islands_abc_facts
  have w1: "\<exists>s' (pth::nat list). send_manual_packet lossy_abc [0, 1, 2] ''A'' ''C'' = Some (s', [])
       \<and> hd pth = 0 \<and> last pth = 2 \<and> length (packets s') = 1 \<and> packet_counter s' = 1
       \<and> random_pos s' = 0"
    using C9_manual_send_amended[OF L(1,2), of "''A''" "''C''" 0 2] L(3,4,5,7,8,9) by auto
  have w2: "\<exists>dlg. send_manual_packet lossy_abc [0, 1, 2] ''A'' ''A'' = Some (lossy_abc, dlg) \<and> dlg \<noteq> []"
    using C9_manual_send_amended[OF L(1,2), of "''A''" "''A''" 0 0] by auto
  have w3: "\<exists>dlg. send_manual_packet lossy_abc [0, 1, 2] ''A'' ''Z'' = Some (lossy_abc, dlg) \<and> dlg \<noteq> []"
    using C9_manual_send_amended[OF L(1,2), of "''A''" "''Z''" 0 0] L(6) by auto
  have w4: "send_manual_packet running_islands_abc [0, 1, 2] ''A'' ''C'' =
        Some (running_islands_abc\<lparr>simulation_running := False, manual_packet_mode := False\<rparr>,
              [''No Path''])"
    using C9_manual_send_amended[OF R(1,2), of "''A''" "''C''" 0 2] R(7,8)
      running_islands_unreachable by simp
  show ?thesis using w1 w2 w3 w4 R(8) by simp
qed

end
